theory Spec2Isabelle
  imports Complex_Main "HOL-Library.Multiset" "HOL-Library.Log_Nat"
begin

section \<open>Numbers\<close>

text \<open>
  A TypeScript \<open>number\<close> is modelled as a real or one of the three special values
  \<open>Infinity\<close>, \<open>-Infinity\<close> and \<open>NaN\<close>; the two zeros are identified. The operators
  \<open>+\<close>, \<open>-\<close>, \<open>*\<close> and \<open>/\<close> of the type compute the exact result and follow the
  arithmetic of the language on the special values: \<open>NaN\<close> is absorbing, every comparison
  with \<open>NaN\<close> is false, a finite non-zero value divided by zero is infinite and \<open>0 / 0\<close>
  is \<open>NaN\<close>. The operations that round the exact result to a double, as the language does,
  are \<open>add_d\<close>, \<open>sub_d\<close>, \<open>mul_d\<close> and \<open>div_d\<close> below.
\<close>

datatype number = Fin real | PosInf | NegInf | NaN

instantiation number :: "{plus, minus, uminus, times, inverse, ord}"
begin

fun plus_number :: "number \<Rightarrow> number \<Rightarrow> number" where
  "plus_number (Fin a) (Fin b) = Fin (a + b)"
| "plus_number NaN _ = NaN"
| "plus_number _ NaN = NaN"
| "plus_number PosInf NegInf = NaN"
| "plus_number NegInf PosInf = NaN"
| "plus_number PosInf _ = PosInf"
| "plus_number _ PosInf = PosInf"
| "plus_number NegInf _ = NegInf"
| "plus_number _ NegInf = NegInf"

fun uminus_number :: "number \<Rightarrow> number" where
  "uminus_number (Fin a) = Fin (- a)"
| "uminus_number PosInf = NegInf"
| "uminus_number NegInf = PosInf"
| "uminus_number NaN = NaN"

definition minus_number :: "number \<Rightarrow> number \<Rightarrow> number" where
  "minus_number a b = a + (- b)"

fun times_number :: "number \<Rightarrow> number \<Rightarrow> number" where
  "times_number (Fin a) (Fin b) = Fin (a * b)"
| "times_number NaN _ = NaN"
| "times_number _ NaN = NaN"
| "times_number (Fin a) PosInf = (if a = 0 then NaN else if 0 < a then PosInf else NegInf)"
| "times_number (Fin a) NegInf = (if a = 0 then NaN else if 0 < a then NegInf else PosInf)"
| "times_number PosInf (Fin b) = (if b = 0 then NaN else if 0 < b then PosInf else NegInf)"
| "times_number NegInf (Fin b) = (if b = 0 then NaN else if 0 < b then NegInf else PosInf)"
| "times_number PosInf PosInf = PosInf"
| "times_number NegInf NegInf = PosInf"
| "times_number PosInf NegInf = NegInf"
| "times_number NegInf PosInf = NegInf"

fun divide_number :: "number \<Rightarrow> number \<Rightarrow> number" where
  "divide_number (Fin a) (Fin b) =
     (if b \<noteq> 0 then Fin (a / b)
      else if a = 0 then NaN else if 0 < a then PosInf else NegInf)"
| "divide_number NaN _ = NaN"
| "divide_number _ NaN = NaN"
| "divide_number (Fin a) PosInf = Fin 0"
| "divide_number (Fin a) NegInf = Fin 0"
| "divide_number PosInf (Fin b) = (if 0 \<le> b then PosInf else NegInf)"
| "divide_number NegInf (Fin b) = (if 0 \<le> b then NegInf else PosInf)"
| "divide_number PosInf PosInf = NaN"
| "divide_number PosInf NegInf = NaN"
| "divide_number NegInf PosInf = NaN"
| "divide_number NegInf NegInf = NaN"

definition inverse_number :: "number \<Rightarrow> number" where
  "inverse_number a = (Fin 1 div a)"

fun less_number :: "number \<Rightarrow> number \<Rightarrow> bool" where
  "less_number (Fin a) (Fin b) = (a < b)"
| "less_number NaN _ = False"
| "less_number _ NaN = False"
| "less_number _ NegInf = False"
| "less_number NegInf _ = True"
| "less_number PosInf _ = False"
| "less_number _ PosInf = True"

definition less_eq_number :: "number \<Rightarrow> number \<Rightarrow> bool" where
  "less_eq_number a b = (a < b \<or> (a = b \<and> a \<noteq> NaN))"

instance ..

end

text \<open>The remainder operator \<open>%\<close>: the result takes the sign of the dividend.\<close>

definition trunc :: "real \<Rightarrow> int" where
  "trunc x = (if 0 \<le> x then \<lfloor>x\<rfloor> else \<lceil>x\<rceil>)"

fun remainder :: "number \<Rightarrow> number \<Rightarrow> number" where
  "remainder (Fin a) (Fin b) = (if b = 0 then NaN else Fin (a - b * of_int (trunc (a / b))))"
| "remainder (Fin a) PosInf = Fin a"
| "remainder (Fin a) NegInf = Fin a"
| "remainder _ _ = NaN"

text \<open>Strict equality \<open>===\<close> on two numbers: \<open>NaN\<close> equals nothing, itself included.\<close>

definition strict_eq :: "number \<Rightarrow> number \<Rightarrow> bool" where
  "strict_eq a b = (a \<noteq> NaN \<and> b \<noteq> NaN \<and> a = b)"

definition Math_max :: "number \<Rightarrow> number \<Rightarrow> number" where
  "Math_max a b = (if a = NaN \<or> b = NaN then NaN else if a < b then b else a)"

definition Math_min :: "number \<Rightarrow> number \<Rightarrow> number" where
  "Math_min a b = (if a = NaN \<or> b = NaN then NaN else if b < a then b else a)"

fun Math_floor :: "number \<Rightarrow> number" where
  "Math_floor (Fin x) = Fin (of_int \<lfloor>x\<rfloor>)"
| "Math_floor v = v"


text \<open>\<open>Math.round\<close> rounds to the nearest integer, a tie going up (towards \<open>+\<infinity>\<close>).\<close>

fun Math_round :: "number \<Rightarrow> number" where
  "Math_round (Fin x) = Fin (of_int \<lfloor>x + 1 / 2\<rfloor>)"
| "Math_round v = v"

subsection \<open>Double precision\<close>

text \<open>
  A double has 53 significant bits and a binary exponent from \<open>-1022\<close> to \<open>1023\<close>. For
  \<open>x > 0\<close>, \<open>exponent x\<close> is the integer \<open>e\<close> with \<open>2 ^ e \<le> x < 2 ^ (e + 1)\<close>, and
  \<open>ulp x\<close> is the distance between neighbouring doubles around \<open>x\<close>, which stays
  \<open>2 ^ (-1074)\<close> below \<open>2 ^ (-1022)\<close>. \<open>to_double\<close> rounds a real to the nearest double, a
  tie going to the even significand, and to an infinity from \<open>2 ^ 1024 - 2 ^ 970\<close> on.
\<close>

definition exponent :: "real \<Rightarrow> int" where
  "exponent x =
     (if 1 \<le> x then bitlen \<lfloor>x\<rfloor> - 1 else - bitlen (\<lceil>1 / x\<rceil> - 1))"

definition round_half_even :: "real \<Rightarrow> int" where
  "round_half_even y =
     (let f = \<lfloor>y\<rfloor>
      in if y - of_int f < 1 / 2 then f
         else if 1 / 2 < y - of_int f then f + 1
         else if even f then f else f + 1)"

definition ulp :: "real \<Rightarrow> real" where
  "ulp x = 2 powi (max (exponent \<bar>x\<bar>) (- 1022) - 52)"

definition to_double :: "real \<Rightarrow> number" where
  "to_double x =
     (if x = 0 then Fin 0
      else
        let r = of_int (round_half_even (x / ulp x)) * ulp x
        in if 2 ^ 1024 \<le> \<bar>r\<bar> then (if 0 < x then PosInf else NegInf) else Fin r)"

text \<open>
  An arithmetic operation on doubles returns the exact result rounded to a double; the
  special values are not rounded.
\<close>

definition rounded :: "number \<Rightarrow> number" where
  "rounded v = (case v of Fin r \<Rightarrow> to_double r | _ \<Rightarrow> v)"

definition add_d :: "number \<Rightarrow> number \<Rightarrow> number" where
  "add_d a b = rounded (a + b)"

definition sub_d :: "number \<Rightarrow> number \<Rightarrow> number" where
  "sub_d a b = rounded (a - b)"

definition mul_d :: "number \<Rightarrow> number \<Rightarrow> number" where
  "mul_d a b = rounded (a * b)"

definition div_d :: "number \<Rightarrow> number \<Rightarrow> number" where
  "div_d a b = rounded (a / b)"

section \<open>Constants and time arithmetic of \<open>App.tsx\<close>\<close>

definition MINUTES_IN_DAY :: number where
  "MINUTES_IN_DAY = Fin 24 * Fin 60"

definition SNAP_MINUTES :: number where
  "SNAP_MINUTES = Fin 15"

definition MIN_SHIFT_MINUTES :: number where
  "MIN_SHIFT_MINUTES = Fin 30"

definition HOUR_WIDTH :: number where
  "HOUR_WIDTH = Fin 72"

definition clamp :: "number \<Rightarrow> number \<Rightarrow> number \<Rightarrow> number" where
  "clamp v lo hi = Math_min (Math_max v lo) hi"

text \<open>
  \<open>snapToStep\<close> has the default argument \<open>step = SNAP_MINUTES\<close>; every call of the source
  leaves it out, which is \<open>snapToStep v SNAP_MINUTES\<close> here.
\<close>

definition snapToStep :: "number \<Rightarrow> number \<Rightarrow> number" where
  "snapToStep v step = Math_round (v / step) * step"

section \<open>Data model\<close>

text \<open>
  The types of \<open>App.tsx\<close>. The fields \<open>id\<close> and \<open>end\<close> of a shift are written \<open>id'\<close> and
  \<open>end'\<close>; the fields of a modal draft carry the prefix \<open>draft_\<close>. A parameter
  named like a field is primed as well.
\<close>

record Shift =
  id' :: string
  employeeId :: string
  dateKey :: string
  title :: string
  start :: number
  end' :: number

datatype Mode = Create | Edit

record ModalDraft =
  draft_mode :: Mode
  draft_shiftId :: "string option"
  draft_employeeId :: string
  draft_dateKey :: string
  draft_title :: string
  draft_startTime :: string
  draft_endTime :: string

datatype Edge = Left | Right

record ResizeState =
  shiftId :: string
  edge :: Edge
  originX :: number
  originStart :: number
  originEnd :: number
  pixelsPerHour :: number

text \<open>
  The part of the component state that the handlers below read and write. The error shown
  in the modal is recorded by the key of its text in the translation table.
\<close>

datatype Message = invalidDate | invalidTime | endAfterStart | minShiftDuration

record AppState =
  shifts :: "Shift list"
  draggingShiftId :: "string option"
  resizeState :: "ResizeState option"
  error :: "Message option"
  modalDraft :: "ModalDraft option"

definition HOURS :: "nat list" where
  "HOURS = [0..<24]"

section \<open>Viewport virtualizer\<close>



section \<open>Shift index\<close>







section \<open>Resize and drag-and-drop handlers\<close>

definition startResize :: "number \<Rightarrow> Shift \<Rightarrow> Edge \<Rightarrow> number \<Rightarrow> AppState \<Rightarrow> AppState" where
  "startResize clientX shift e pph st =
     st\<lparr>draggingShiftId := None,
        resizeState := Some \<lparr>shiftId = id' shift, edge = e, originX = clientX,
          originStart = start shift, originEnd = end' shift, pixelsPerHour = pph\<rparr>\<rparr>"

text \<open>
  The pointer-move listener exists only while a resize state is set; it rewrites the shift
  with the captured id from the captured origin values. The pointer positions are
  fractional pixels and \<open>pixelsPerHour\<close> is a fraction in the week and month views, and a
  stored shift may carry a fractional start or end, so the difference, the quotient, the
  product and the sums of the listener are the rounded ones.
\<close>

definition resizeShift :: "ResizeState \<Rightarrow> number \<Rightarrow> Shift \<Rightarrow> Shift" where
  "resizeShift rs deltaMinutes shift =
     (if id' shift \<noteq> shiftId rs then shift
      else if edge rs = Left then
        let nextStart = clamp (add_d (originStart rs) deltaMinutes) (Fin 0)
                          (sub_d (originEnd rs) MIN_SHIFT_MINUTES)
        in shift\<lparr>start := nextStart, end' := originEnd rs\<rparr>
      else
        let nextEnd = clamp (add_d (originEnd rs) deltaMinutes)
                        (add_d (originStart rs) MIN_SHIFT_MINUTES) MINUTES_IN_DAY
        in shift\<lparr>start := originStart rs, end' := nextEnd\<rparr>)"

definition onPointerMove :: "number \<Rightarrow> AppState \<Rightarrow> AppState" where
  "onPointerMove clientX st =
     (case resizeState st of
        None \<Rightarrow> st
      | Some rs \<Rightarrow>
          let deltaPx = sub_d clientX (originX rs);
              deltaMinutes = snapToStep (mul_d (div_d deltaPx (pixelsPerHour rs)) (Fin 60))
                               SNAP_MINUTES
          in st\<lparr>shifts := map (resizeShift rs deltaMinutes) (shifts st)\<rparr>)"

text \<open>
  \<open>handleDropOnTimeline\<close>: \<open>clientX\<close> is the pointer position, \<open>rectLeft\<close> and \<open>rectWidth\<close>
  the bounding rectangle of the timeline, \<open>sid\<close> the text of the data transfer.
\<close>

definition handleDropOnTimeline ::
  "number \<Rightarrow> number \<Rightarrow> number \<Rightarrow> string \<Rightarrow> string \<Rightarrow> string \<Rightarrow> AppState \<Rightarrow> AppState" where
  "handleDropOnTimeline clientX rectLeft rectWidth sid employeeId' dateKey' st =
     (if sid = [] then st
      else
        let x = clamp (clientX - rectLeft) (Fin 0) (rectWidth - Fin 1);
            hourIndex = clamp (Math_floor (x / HOUR_WIDTH)) (Fin 0)
                          (Fin (real (length HOURS)) - Fin 1);
            cellStart = hourIndex * Fin 60
        in st\<lparr>shifts := map (\<lambda>shift.
                 if id' shift \<noteq> sid then shift
                 else
                   let duration = end' shift - start shift;
                       nextStart = clamp cellStart (Fin 0) (MINUTES_IN_DAY - duration)
                   in shift\<lparr>employeeId := employeeId', dateKey := dateKey',
                        start := nextStart, end' := nextStart + duration\<rparr>) (shifts st),
              draggingShiftId := None\<rparr>)"

definition handleDropOnDateCell :: "string \<Rightarrow> string \<Rightarrow> string \<Rightarrow> AppState \<Rightarrow> AppState" where
  "handleDropOnDateCell sid employeeId' dateKey' st =
     (if sid = [] then st
      else st\<lparr>shifts := map (\<lambda>shift.
                 if id' shift = sid then shift\<lparr>employeeId := employeeId', dateKey := dateKey'\<rparr>
                 else shift) (shifts st),
              draggingShiftId := None\<rparr>)"

section \<open>Strings and time of day\<close>

text \<open>
  Strings are lists of bytes; the model covers ASCII text. An array element read by a
  destructuring pattern is a number or \<open>undefined\<close>.
\<close>

datatype element = Undefined | Num number

fun String_split :: "string \<Rightarrow> char \<Rightarrow> string list" where
  "String_split [] sep = [[]]"
| "String_split (c # cs) sep =
     (if c = sep then [] # String_split cs sep
      else case String_split cs sep of
             p # ps \<Rightarrow> (c # p) # ps
           | [] \<Rightarrow> [[c]])"

definition isWhiteSpace :: "char \<Rightarrow> bool" where
  "isWhiteSpace c = (c \<in> set [CHR 0x09, CHR 0x0A, CHR 0x0B, CHR 0x0C, CHR 0x0D, CHR 0x20])"

definition trim :: "string \<Rightarrow> string" where
  "trim s = rev (dropWhile isWhiteSpace (rev (dropWhile isWhiteSpace s)))"

definition digitValue :: "char \<Rightarrow> nat option" where
  "digitValue c =
     (let n = of_char c :: nat
      in if 48 \<le> n \<and> n \<le> 57 then Some (n - 48)
         else if 97 \<le> n \<and> n \<le> 102 then Some (n - 87)
         else if 65 \<le> n \<and> n \<le> 70 then Some (n - 55)
         else None)"

definition isDigit :: "char \<Rightarrow> bool" where
  "isDigit c = (48 \<le> (of_char c :: nat) \<and> (of_char c :: nat) \<le> 57)"

fun digitsValue :: "nat \<Rightarrow> nat \<Rightarrow> string \<Rightarrow> nat option" where
  "digitsValue radix acc [] = Some acc"
| "digitsValue radix acc (c # cs) =
     (case digitValue c of
        Some d \<Rightarrow> if d < radix then digitsValue radix (acc * radix + d) cs else None
      | None \<Rightarrow> None)"

definition integerLiteral :: "nat \<Rightarrow> string \<Rightarrow> number" where
  "integerLiteral radix s =
     (if s = [] then NaN
      else case digitsValue radix 0 s of Some n \<Rightarrow> Fin (real n) | None \<Rightarrow> NaN)"

definition exponentPart :: "string \<Rightarrow> int option" where
  "exponentPart s =
     (case s of
        [] \<Rightarrow> Some 0
      | c # r \<Rightarrow>
          if c = CHR ''e'' \<or> c = CHR ''E'' then
            (let neg = (r \<noteq> [] \<and> hd r = CHR ''-'');
                 ds = (if r \<noteq> [] \<and> (hd r = CHR ''+'' \<or> hd r = CHR ''-'') then tl r else r)
             in if ds = [] \<or> \<not> list_all isDigit ds then None
                else case digitsValue 10 0 ds of
                       Some n \<Rightarrow> Some (if neg then - int n else int n)
                     | None \<Rightarrow> None)
          else None)"

definition unsignedDecimalLiteral :: "string \<Rightarrow> number" where
  "unsignedDecimalLiteral s =
     (if s = ''Infinity'' then PosInf
      else
        let ip = takeWhile isDigit s;
            r1 = dropWhile isDigit s;
            dot = (r1 \<noteq> [] \<and> hd r1 = CHR ''.'');
            fp = (if dot then takeWhile isDigit (tl r1) else []);
            r2 = (if dot then dropWhile isDigit (tl r1) else r1)
        in if ip = [] \<and> fp = [] then NaN
           else case (digitsValue 10 0 (ip @ fp), exponentPart r2) of
                  (Some n, Some e) \<Rightarrow>
                     (let k = e - int (length fp)
                      in if 0 \<le> k then Fin (real n * 10 ^ nat k)
                         else Fin (real n / 10 ^ nat (- k)))
                | _ \<Rightarrow> NaN)"

definition Number :: "string \<Rightarrow> number" where
  "Number s =
     (let t = trim s
      in if t = [] then Fin 0
         else if take 2 t = ''0x'' \<or> take 2 t = ''0X'' then integerLiteral 16 (drop 2 t)
         else if take 2 t = ''0o'' \<or> take 2 t = ''0O'' then integerLiteral 8 (drop 2 t)
         else if take 2 t = ''0b'' \<or> take 2 t = ''0B'' then integerLiteral 2 (drop 2 t)
         else if hd t = CHR ''+'' then unsignedDecimalLiteral (tl t)
         else if hd t = CHR ''-'' then - unsignedDecimalLiteral (tl t)
         else unsignedDecimalLiteral t)"

definition ToNumber :: "element \<Rightarrow> number" where
  "ToNumber v = (case v of Undefined \<Rightarrow> NaN | Num n \<Rightarrow> n)"

definition Number_isNaN :: "element \<Rightarrow> bool" where
  "Number_isNaN v = (v = Num NaN)"

definition destructure :: "number list \<Rightarrow> nat \<Rightarrow> element" where
  "destructure xs i = (if i < length xs then Num (xs ! i) else Undefined)"

definition parseTime :: "string \<Rightarrow> number option" where
  "parseTime v =
     (let parts = map Number (String_split v CHR '':'');
          h = destructure parts 0;
          m = destructure parts 1
      in if Number_isNaN h \<or> Number_isNaN m then None
         else if ToNumber h < Fin 0 \<or> Fin 23 < ToNumber h \<or> ToNumber m < Fin 0 \<or> Fin 59 < ToNumber m
           then None
         else Some (ToNumber h * Fin 60 + ToNumber m))"

text \<open>
  \<open>String(v)\<close> of a number. For an integer below \<open>10^21\<close> in absolute value it is the
  decimal digits; the digits of any other finite value come from the binary representation
  of the double, which the exact reals of this model do not have: the result \<open>None\<close> marks
  such a value as outside the model (it is not a value of the program).
\<close>

definition digitChar :: "nat \<Rightarrow> char" where
  "digitChar n = ''0123456789'' ! n"

fun digits :: "nat \<Rightarrow> string" where
  "digits n = (if n < 10 then [digitChar n] else digits (n div 10) @ [digitChar (n mod 10)])"

definition String_number :: "number \<Rightarrow> string option" where
  "String_number v =
     (case v of
        NaN \<Rightarrow> Some ''NaN''
      | PosInf \<Rightarrow> Some ''Infinity''
      | NegInf \<Rightarrow> Some ''-Infinity''
      | Fin x \<Rightarrow>
          if x = of_int \<lfloor>x\<rfloor> \<and> \<bar>x\<bar> < 10 ^ 21
          then Some ((if x < 0 then ''-'' else []) @ digits (nat \<bar>\<lfloor>x\<rfloor>\<bar>))
          else None)"

definition padStart :: "string \<Rightarrow> nat \<Rightarrow> char \<Rightarrow> string" where
  "padStart s n c = replicate (n - length s) c @ s"

definition formatTime :: "number \<Rightarrow> string option" where
  "formatTime minutes' =
     (let normalized = clamp minutes' (Fin 0) MINUTES_IN_DAY;
          h = Math_floor (normalized / Fin 60);
          m = remainder normalized (Fin 60)
      in case (String_number h, String_number m) of
           (Some hs, Some ms) \<Rightarrow> Some (padStart hs 2 CHR ''0'' @ '':'' @ padStart ms 2 CHR ''0'')
         | _ \<Rightarrow> None)"

section \<open>Calendar dates\<close>

text \<open>
  A \<open>Date\<close> built from year, month and day holds local midnight of a calendar day, or is
  invalid. The model is the proleptic Gregorian calendar in a time zone without offset
  changes: \<open>Day n\<close> is the day \<open>n\<close> days after 1970-01-01. \<open>days_from_civil\<close> and
  \<open>civil_from_days\<close> convert between day numbers and (year, month 1..12, day).
\<close>

datatype Date = Day int | InvalidDate

definition days_from_civil :: "int \<Rightarrow> int \<Rightarrow> int \<Rightarrow> int" where
  "days_from_civil y m d =
     (let y' = (if m \<le> 2 then y - 1 else y);
          era = y' div 400;
          yoe = y' - era * 400;
          doy = (153 * (if 2 < m then m - 3 else m + 9) + 2) div 5 + d - 1;
          doe = yoe * 365 + yoe div 4 - yoe div 100 + doy
      in era * 146097 + doe - 719468)"

definition civil_from_days :: "int \<Rightarrow> int \<times> int \<times> int" where
  "civil_from_days z =
     (let z' = z + 719468;
          era = z' div 146097;
          doe = z' - era * 146097;
          yoe = (doe - doe div 1460 + doe div 36524 - doe div 146096) div 365;
          doy = doe - (365 * yoe + yoe div 4 - yoe div 100);
          mp = (5 * doy + 2) div 153;
          d = doy - (153 * mp + 2) div 5 + 1;
          m = (if mp < 10 then mp + 3 else mp - 9);
          y = yoe + era * 400
      in (if m \<le> 2 then y + 1 else y, m, d))"

text \<open>
  \<open>new Date(year, month, day)\<close>: a year from 0 to 99 means 1900 + year; the arguments are
  truncated to integers; months and days beyond their range carry over; a non-finite
  argument or a day more than \<open>10^8\<close> days from the epoch gives an invalid date.
\<close>

definition MakeFullYear :: "number \<Rightarrow> number" where
  "MakeFullYear y =
     (case y of
        Fin r \<Rightarrow> (let t = trunc r in if 0 \<le> t \<and> t \<le> 99 then Fin (of_int (1900 + t)) else Fin (of_int t))
      | _ \<Rightarrow> y)"

definition new_Date :: "number \<Rightarrow> number \<Rightarrow> number \<Rightarrow> Date" where
  "new_Date year month date =
     (case (MakeFullYear year, month, date) of
        (Fin yr, Fin mo, Fin dt) \<Rightarrow>
          (let y = trunc yr; m = trunc mo; d = trunc dt;
               ym = y + m div 12;
               mn = m mod 12;
               day = days_from_civil ym (mn + 1) 1 + d - 1
           in if \<bar>day\<bar> \<le> 100000000 then Day day else InvalidDate)
      | _ \<Rightarrow> InvalidDate)"

definition getFullYear :: "Date \<Rightarrow> number" where
  "getFullYear date =
     (case date of Day n \<Rightarrow> (case civil_from_days n of (y, m, d) \<Rightarrow> Fin (of_int y)) | InvalidDate \<Rightarrow> NaN)"

definition getMonth :: "Date \<Rightarrow> number" where
  "getMonth date =
     (case date of Day n \<Rightarrow> (case civil_from_days n of (y, m, d) \<Rightarrow> Fin (of_int (m - 1))) | InvalidDate \<Rightarrow> NaN)"

definition getDate :: "Date \<Rightarrow> number" where
  "getDate date =
     (case date of Day n \<Rightarrow> (case civil_from_days n of (y, m, d) \<Rightarrow> Fin (of_int d)) | InvalidDate \<Rightarrow> NaN)"

definition parseDateKey :: "string \<Rightarrow> Date option" where
  "parseDateKey v =
     (let parts = map Number (String_split v CHR ''-'');
          y = destructure parts 0;
          m = destructure parts 1;
          d = destructure parts 2
      in if Number_isNaN y \<or> Number_isNaN m \<or> Number_isNaN d then None
         else
           let date = new_Date (ToNumber y) (ToNumber m - Fin 1) (ToNumber d)
           in if \<not> strict_eq (getFullYear date) (ToNumber y)
                 \<or> \<not> strict_eq (getMonth date) (ToNumber m - Fin 1)
                 \<or> \<not> strict_eq (getDate date) (ToNumber d)
              then None
              else Some date)"

section \<open>Saving the modal draft\<close>

text \<open>
  \<open>handleSaveShift\<close>: \<open>uuid\<close> is the value of \<open>crypto.randomUUID()\<close>, \<open>defaultShiftTitle\<close>
  the entry of the translation table. An error message is recorded by its key in that
  table.
\<close>

definition closeModal :: "AppState \<Rightarrow> AppState" where
  "closeModal st = st\<lparr>modalDraft := None, error := None\<rparr>"

definition draftTitle :: "string \<Rightarrow> ModalDraft \<Rightarrow> string" where
  "draftTitle defaultShiftTitle draft =
     (if trim (draft_title draft) \<noteq> [] then trim (draft_title draft) else defaultShiftTitle)"

definition handleSaveShift :: "string \<Rightarrow> string \<Rightarrow> AppState \<Rightarrow> AppState" where
  "handleSaveShift uuid defaultShiftTitle st =
     (case modalDraft st of
        None \<Rightarrow> st
      | Some draft \<Rightarrow>
          if parseDateKey (draft_dateKey draft) = None then st\<lparr>error := Some invalidDate\<rparr>
          else
            case (parseTime (draft_startTime draft), parseTime (draft_endTime draft)) of
              (Some start', Some end'') \<Rightarrow>
                (let snappedStart = snapToStep start' SNAP_MINUTES;
                     snappedEnd = snapToStep end'' SNAP_MINUTES
                 in if snappedEnd \<le> snappedStart then st\<lparr>error := Some endAfterStart\<rparr>
                    else if snappedEnd - snappedStart < MIN_SHIFT_MINUTES
                      then st\<lparr>error := Some minShiftDuration\<rparr>
                    else if draft_mode draft = Edit \<and> draft_shiftId draft \<noteq> None
                            \<and> draft_shiftId draft \<noteq> Some []
                      then closeModal (st\<lparr>shifts := map (\<lambda>shift.
                             if Some (id' shift) = draft_shiftId draft
                             then shift\<lparr>employeeId := draft_employeeId draft,
                                    dateKey := draft_dateKey draft,
                                    title := draftTitle defaultShiftTitle draft,
                                    start := snappedStart, end' := snappedEnd\<rparr>
                             else shift) (shifts st)\<rparr>)
                    else closeModal (st\<lparr>shifts := shifts st @
                           [\<lparr>id' = uuid, employeeId = draft_employeeId draft,
                             dateKey = draft_dateKey draft,
                             title = draftTitle defaultShiftTitle draft,
                             start = snappedStart, end' = snappedEnd\<rparr>]\<rparr>))
            | _ \<Rightarrow> st\<lparr>error := Some invalidTime\<rparr>)"

section \<open>Loading and saving the shifts\<close>

text \<open>
  The two storage effects of the component, as a transition system. The state holds the
  shift collection, the flag \<open>isStorageReady\<close>, the variable \<open>isCancelled\<close> of the load
  effect, whether the promise of \<open>loadShiftsFromIndexedDb\<close> is still pending, and the trace
  of what has happened: the calls of \<open>loadShiftsFromIndexedDb\<close> and
  \<open>saveShiftsToIndexedDb\<close>, the settling of the load, and \<open>setIsStorageReady(true)\<close>.
  The save effect depends on \<open>[isStorageReady, shifts]\<close>: it runs after mounting and after
  every change of either.
\<close>

datatype Action = LoadCall | LoadSettled | SetReady | SaveCall "Shift list"

record Component =
  c_shifts :: "Shift list"
  isStorageReady :: bool
  isCancelled :: bool
  loadPending :: bool
  trace :: "Action list"

datatype Event =
  LoadResolved "Shift list option"
  | LoadRejected
  | ShiftsChanged "Shift list"
  | Unmounted

definition saveEffect :: "Component \<Rightarrow> Component" where
  "saveEffect c =
     (if \<not> isStorageReady c then c
      else c\<lparr>trace := trace c @ [SaveCall (c_shifts c)]\<rparr>)"

definition mount :: "Shift list \<Rightarrow> Component" where
  "mount initialShifts =
     saveEffect \<lparr>c_shifts = initialShifts, isStorageReady = False, isCancelled = False,
       loadPending = True, trace = [LoadCall]\<rparr>"

fun step :: "Event \<Rightarrow> Component \<Rightarrow> Component" where
  "step (LoadResolved storedShifts) c =
     (if \<not> loadPending c then c
      else
        let c1 = c\<lparr>loadPending := False, trace := trace c @ [LoadSettled]\<rparr>
        in if isCancelled c1 then c1
           else
             let c2 = (case storedShifts of Some ss \<Rightarrow> c1\<lparr>c_shifts := ss\<rparr> | None \<Rightarrow> c1)
             in saveEffect (c2\<lparr>isStorageReady := True, trace := trace c2 @ [SetReady]\<rparr>))"
| "step LoadRejected c =
     (if \<not> loadPending c then c
      else
        let c1 = c\<lparr>loadPending := False, trace := trace c @ [LoadSettled]\<rparr>
        in if \<not> isCancelled c1
           then saveEffect (c1\<lparr>isStorageReady := True, trace := trace c1 @ [SetReady]\<rparr>)
           else c1)"
| "step (ShiftsChanged ss) c =
     (if isCancelled c then c else saveEffect (c\<lparr>c_shifts := ss\<rparr>))"
| "step Unmounted c = c\<lparr>isCancelled := True\<rparr>"

definition run :: "Event list \<Rightarrow> Component \<Rightarrow> Component" where
  "run es c = foldl (\<lambda>c e. step e c) c es"

section \<open>Notions used in the statements\<close>



text \<open>
  The invariants of a shift: \<open>0 \<le> start < end \<le> 1440\<close>, \<open>end - start \<ge> 30\<close>, and start and
  end multiples of 15 (\<open>v % 15 === 0\<close>).
\<close>

definition shift_ok :: "Shift \<Rightarrow> bool" where
  "shift_ok s =
     (Fin 0 \<le> start s \<and> start s < end' s \<and> end' s \<le> MINUTES_IN_DAY
      \<and> MIN_SHIFT_MINUTES \<le> end' s - start s
      \<and> remainder (start s) SNAP_MINUTES = Fin 0 \<and> remainder (end' s) SNAP_MINUTES = Fin 0)"

text \<open>The events that settle the load: its promise resolves or rejects.\<close>

fun settles :: "Event \<Rightarrow> bool" where
  "settles (LoadResolved _) = True"
| "settles LoadRejected = True"
| "settles _ = False"

text \<open>
  The invariant of the storage transition system: while the load is pending nothing but
  the load call has happened and the flag is down; once the flag is up the trace is the load
  call, its settling, the setting of the flag and then saves only; with the flag down after
  the settling, the component was unmounted and nothing else has happened.
\<close>

definition storage_inv :: "Component \<Rightarrow> bool" where
  "storage_inv c =
     (if loadPending c then trace c = [LoadCall] \<and> \<not> isStorageReady c
      else if isStorageReady c
      then (\<exists>saves. trace c = LoadCall # LoadSettled # SetReady # map SaveCall saves)
      else trace c = [LoadCall, LoadSettled] \<and> isCancelled c)"

section \<open>Example data\<close>

definition idle :: "Shift list \<Rightarrow> AppState" where
  "idle ss = \<lparr>shifts = ss, draggingShiftId = None, resizeState = None, error = None,
     modalDraft = None\<rparr>"

definition shift_A :: Shift where
  "shift_A = \<lparr>id' = ''A'', employeeId = ''e1'', dateKey = ''2024-01-15'', title = ''A'',
     start = Fin 600, end' = Fin 720\<rparr>"

definition shift_B :: Shift where
  "shift_B = \<lparr>id' = ''B'', employeeId = ''e1'', dateKey = ''2024-01-15'', title = ''B'',
     start = Fin 300, end' = Fin 420\<rparr>"

definition morning_shift :: Shift where
  "morning_shift = \<lparr>id' = ''m1'', employeeId = ''e1'', dateKey = ''2024-01-15'',
     title = ''Morning'', start = Fin 540, end' = Fin 780\<rparr>"

definition morning_resize :: ResizeState where
  "morning_resize = \<lparr>shiftId = ''m1'', edge = Right, originX = Fin 100, originStart = Fin 540,
     originEnd = Fin 780, pixelsPerHour = Fin 72\<rparr>"

text \<open>A stored shift that ends after midnight.\<close>

definition late_shift :: Shift where
  "late_shift = \<lparr>id' = ''s1'', employeeId = ''e1'', dateKey = ''2024-01-15'', title = ''Late'',
     start = Fin 1425, end' = Fin 1455\<rparr>"

text \<open>Two drafts with a time field left empty: a new shift, and an edit of shift \<open>A\<close>.\<close>

definition blank_start_draft :: ModalDraft where
  "blank_start_draft = \<lparr>draft_mode = Create, draft_shiftId = None, draft_employeeId = ''e1'',
     draft_dateKey = ''2024-01-15'', draft_title = ''Night'', draft_startTime = [],
     draft_endTime = ''10:00''\<rparr>"

definition blank_end_draft :: ModalDraft where
  "blank_end_draft = \<lparr>draft_mode = Edit, draft_shiftId = Some ''A'', draft_employeeId = ''e1'',
     draft_dateKey = ''2024-01-15'', draft_title = ''A'', draft_startTime = ''10:00'',
     draft_endTime = []\<rparr>"

section \<open>Arithmetic on finite numbers\<close>

declare digits.simps [simp del]

lemma minus_Fin [simp]: "Fin a - Fin b = Fin (a - b)"
  by (simp add: minus_number_def)

lemma less_eq_Fin [simp]: "(Fin a \<le> Fin b) = (a \<le> b)"
  by (auto simp: less_eq_number_def)

lemma Math_max_Fin [simp]: "Math_max (Fin a) (Fin b) = Fin (max a b)"
  by (simp add: Math_max_def max_def)

lemma Math_min_Fin [simp]: "Math_min (Fin a) (Fin b) = Fin (min a b)"
  by (simp add: Math_min_def min_def)

lemma clamp_Fin [simp]: "clamp (Fin v) (Fin lo) (Fin hi) = Fin (min (max v lo) hi)"
  by (simp add: clamp_def)

lemma snapToStep_Fin: "snapToStep (Fin v) SNAP_MINUTES = Fin (of_int \<lfloor>v / 15 + 1 / 2\<rfloor> * 15)"
  by (simp add: snapToStep_def SNAP_MINUTES_def)

lemma round_half_bounds:
  fixes v :: real
  shows "\<bar>of_int \<lfloor>v / 15 + 1 / 2\<rfloor> * 15 - v\<bar> \<le> 15 / 2"
proof -
  define k where "k = \<lfloor>v / 15 + 1 / 2\<rfloor>"
  have lo: "of_int k \<le> v / 15 + 1 / 2"
    unfolding k_def by (rule of_int_floor_le)
  have hi: "v / 15 + 1 / 2 < of_int k + 1"
    unfolding k_def by linarith
  from lo hi have "- (15 / 2) \<le> of_int k * 15 - v" and "of_int k * 15 - v \<le> 15 / 2"
    by linarith+
  then show ?thesis
    unfolding k_def [symmetric] by linarith
qed

lemma round_half_bounds_int:
  fixes n :: int
  shows "\<bar>of_int \<lfloor>real_of_int n / 15 + 1 / 2\<rfloor> * 15 - real_of_int n\<bar> \<le> 7"
proof -
  have fl: "\<lfloor>real_of_int n / 15 + 1 / 2\<rfloor> = (2 * n + 15) div 30"
  proof -
    have "real_of_int n / 15 + 1 / 2 = real_of_int (2 * n + 15) / real_of_int 30"
      by (simp add: field_simps)
    then show ?thesis
      by (simp only: floor_divide_of_int_eq)
  qed
  have "\<bar>((2 * n + 15) div 30) * 15 - n\<bar> \<le> 7"
    by presburger
  then have "\<bar>real_of_int (((2 * n + 15) div 30) * 15 - n)\<bar> \<le> 7"
    by linarith
  then show ?thesis
    unfolding fl by simp
qed

section \<open>Rounding to a double\<close>

text \<open>
  The exponent of a positive real is characterised by its two bounds; an integer below
  \<open>2 ^ 53\<close> in magnitude is a double, and a real of magnitude \<open>2 ^ 53\<close> or more is rounded
  to a double of magnitude \<open>2 ^ 53\<close> or more, or to an infinity.
\<close>

lemma exponent_bounds:
  assumes "0 < x"
  shows "2 powi exponent x \<le> x" "x < 2 powi (exponent x + 1)"
proof -
  have "2 powi exponent x \<le> x \<and> x < 2 powi (exponent x + 1)"
  proof (cases "1 \<le> x")
    case True
    define n where "n = nat \<lfloor>x\<rfloor>"
    define k where "k = floorlog 2 n"
    have n: "0 < n" "real n \<le> x" "x < real n + 1"
      using True unfolding n_def by linarith+
    from floorlog_bounds [of n 2] n(1) have b: "2 ^ (k - 1) \<le> n" "n < 2 ^ k"
      by (simp_all add: k_def)
    have k: "0 < k"
      using n(1) by (simp add: k_def floorlog_def)
    have e: "exponent x = int (k - 1)" "exponent x + 1 = int k"
      using True k by (simp_all add: exponent_def bitlen_def n_def k_def)
    have p: "(2::real) powi exponent x = 2 ^ (k - 1)" "(2::real) powi (exponent x + 1) = 2 ^ k"
      by (simp only: e(1) power_int_of_nat) (simp only: e(2) power_int_of_nat)
    have "real (2 ^ (k - 1)) \<le> real n"
      using b(1) by (simp only: of_nat_le_iff)
    then have "(2::real) ^ (k - 1) \<le> real n"
      by (simp only: of_nat_power of_nat_numeral)
    then have lo: "2 ^ (k - 1) \<le> x"
      using n(2) by linarith
    have "n + 1 \<le> 2 ^ k"
      using b(2) by simp
    then have "real (n + 1) \<le> real (2 ^ k)"
      by (simp only: of_nat_le_iff)
    then have "real n + 1 \<le> (2::real) ^ k"
      by (simp only: of_nat_power of_nat_numeral of_nat_add of_nat_1)
    then have hi: "x < 2 ^ k"
      using n(3) by linarith
    show ?thesis
      unfolding p using lo hi by simp
  next
    case False
    define y where "y = 1 / x"
    define c where "c = nat (\<lceil>y\<rceil> - 1)"
    define k where "k = floorlog 2 c"
    have y: "1 < y" "x = 1 / y"
      using False assms by (simp_all add: y_def)
    then have "2 \<le> \<lceil>y\<rceil>"
      by linarith
    then have c: "0 < c" "real c < y" "y \<le> real c + 1"
      unfolding c_def by linarith+
    from floorlog_bounds [of c 2] c(1) have b: "2 ^ (k - 1) \<le> c" "c < 2 ^ k"
      by (simp_all add: k_def)
    have k: "0 < k"
      using c(1) by (simp add: k_def floorlog_def)
    have e: "exponent x = - int k" "exponent x + 1 = - int (k - 1)"
      using False k by (simp_all add: exponent_def bitlen_def y_def c_def k_def)
    have p: "(2::real) powi exponent x = 1 / 2 ^ k"
      "(2::real) powi (exponent x + 1) = 1 / 2 ^ (k - 1)"
      by (simp only: e(1) power_int_minus_divide power_int_of_nat)
        (simp only: e(2) power_int_minus_divide power_int_of_nat)
    have "real (2 ^ (k - 1)) \<le> real c"
      using b(1) by (simp only: of_nat_le_iff)
    then have "(2::real) ^ (k - 1) \<le> real c"
      by (simp only: of_nat_power of_nat_numeral)
    then have lo: "2 ^ (k - 1) < y"
      using c(2) by linarith
    have "c + 1 \<le> 2 ^ k"
      using b(2) by simp
    then have "real (c + 1) \<le> real (2 ^ k)"
      by (simp only: of_nat_le_iff)
    then have "real c + 1 \<le> (2::real) ^ k"
      by (simp only: of_nat_power of_nat_numeral of_nat_add of_nat_1)
    then have hi: "y \<le> 2 ^ k"
      using c(3) by linarith
    have y0: "0 < y"
      using y(1) by simp
    have "1 / 2 ^ k \<le> 1 / y"
      using hi y0 by (intro divide_left_mono mult_pos_pos) simp_all
    then have a: "1 / 2 ^ k \<le> x"
      by (simp only: y(2))
    have "1 / y < 1 / 2 ^ (k - 1)"
      using lo y0 by (intro divide_strict_left_mono mult_pos_pos) simp_all
    then have b: "x < 1 / 2 ^ (k - 1)"
      by (simp only: y(2))
    show ?thesis
      unfolding p using a b by simp
  qed
  then show "2 powi exponent x \<le> x" "x < 2 powi (exponent x + 1)"
    by simp_all
qed

lemma exponent_unique:
  assumes "2 powi e \<le> x" "x < 2 powi (e + 1)"
  shows "exponent x = e"
proof -
  have "0 < (2::real) powi e"
    by (rule zero_less_power_int) simp
  with assms(1) have pos: "0 < x"
    by linarith
  note b = exponent_bounds [OF pos]
  have "\<not> exponent x < e"
  proof
    assume "exponent x < e"
    then have "2 powi (exponent x + 1) \<le> (2::real) powi e"
      by (intro power_int_increasing) simp_all
    with b(2) assms(1) show False by simp
  qed
  moreover have "\<not> e < exponent x"
  proof
    assume "e < exponent x"
    then have "2 powi (e + 1) \<le> (2::real) powi exponent x"
      by (intro power_int_increasing) simp_all
    with b(1) assms(2) show False by simp
  qed
  ultimately show ?thesis by simp
qed

lemma round_half_even_of_int [simp]: "round_half_even (of_int m) = m"
  by (simp add: round_half_even_def)

lemma round_half_even_ge:
  assumes "of_int m \<le> y"
  shows "m \<le> round_half_even y"
proof -
  have "m \<le> \<lfloor>y\<rfloor>"
    using assms by (simp add: le_floor_iff)
  then show ?thesis
    by (simp add: round_half_even_def Let_def)
qed

lemma round_half_even_le:
  assumes "y \<le> of_int m"
  shows "round_half_even y \<le> m"
proof (cases "y = of_int m")
  case True
  then show ?thesis by simp
next
  case False
  with assms have "y < of_int m" by simp
  then have "\<lfloor>y\<rfloor> < m"
    by (simp add: floor_less_iff)
  then show ?thesis
    by (simp add: round_half_even_def Let_def)
qed

lemma ulp_pos: "0 < ulp x"
  unfolding ulp_def by (rule zero_less_power_int) simp

lemma to_double_not_NaN [simp]: "to_double x \<noteq> NaN"
  by (simp add: to_double_def Let_def)

lemma rounded_NaN_iff [simp]: "(rounded v = NaN) = (v = NaN)"
  by (cases v) (simp_all add: rounded_def)

lemma to_double_exact:
  assumes "x / ulp x = of_int m" "\<bar>x\<bar> < 2 ^ 1024"
  shows "to_double x = Fin x"
proof (cases "x = 0")
  case True
  then show ?thesis by (simp add: to_double_def)
next
  case False
  have "x = of_int m * ulp x"
    using assms(1) ulp_pos [of x] by (simp add: field_simps)
  then have "of_int (round_half_even (x / ulp x)) * ulp x = x"
    by (simp add: assms(1))
  with False assms(2) show ?thesis
    by (simp add: to_double_def Let_def)
qed

lemma to_double_eval:
  assumes "x \<noteq> 0" "exponent \<bar>x\<bar> = e" "u = 2 powi (max e (- 1022) - 52)"
    and "round_half_even (x / u) = n" "r = of_int n * u" "\<bar>r\<bar> < 2 ^ 1024"
  shows "to_double x = Fin r"
proof -
  have "ulp x = u"
    by (simp add: ulp_def assms(2,3))
  with assms(1,4,5,6) show ?thesis
    by (simp add: to_double_def Let_def)
qed

lemma ulp_int:
  assumes "n \<noteq> 0" "\<bar>n\<bar> < 2 ^ 53"
  shows "\<exists>k::nat. ulp (of_int n) = 1 / 2 ^ k"
proof -
  define e where "e = exponent \<bar>real_of_int n\<bar>"
  have "1 \<le> \<bar>n\<bar>"
    using assms(1) by linarith
  then have one: "1 \<le> \<bar>real_of_int n\<bar>"
    by linarith
  then have pos: "0 < \<bar>real_of_int n\<bar>"
    by linarith
  note b = exponent_bounds [OF pos, folded e_def]
  have "real_of_int \<bar>n\<bar> < real_of_int (2 ^ 53)"
    using assms(2) by (simp only: of_int_less_iff)
  then have small: "\<bar>real_of_int n\<bar> < 2 ^ 53"
    by simp
  have lo: "0 \<le> e"
  proof (rule ccontr)
    assume "\<not> 0 \<le> e"
    then have "2 powi (e + 1) \<le> (2::real) powi 0"
      by (intro power_int_increasing) simp_all
    with b(2) one show False by simp
  qed
  have hi: "e \<le> 52"
  proof (rule ccontr)
    assume "\<not> e \<le> 52"
    then have "2 powi 53 \<le> (2::real) powi e"
      by (intro power_int_increasing) simp_all
    with b(1) small show False by simp
  qed
  define k where "k = nat (52 - e)"
  have "max e (- 1022) - 52 = - int k"
    using lo hi by (simp add: k_def max_def)
  then have "ulp (of_int n) = 2 powi (- int k)"
    by (simp add: ulp_def e_def)
  also have "\<dots> = 1 / 2 ^ k"
    by (simp only: power_int_minus_divide power_int_of_nat)
  finally show ?thesis ..
qed

lemma to_double_int:
  assumes "\<bar>n\<bar> < 2 ^ 53"
  shows "to_double (of_int n) = Fin (of_int n)"
proof (cases "n = 0")
  case True
  then show ?thesis by (simp add: to_double_def)
next
  case False
  from ulp_int [OF False assms] obtain k :: nat where k: "ulp (of_int n) = 1 / 2 ^ k" ..
  have "real_of_int n / ulp (of_int n) = of_int (n * 2 ^ k)"
    by (simp add: k)
  moreover have "\<bar>real_of_int n\<bar> < 2 ^ 1024"
  proof -
    have "real_of_int \<bar>n\<bar> < real_of_int (2 ^ 53)"
      using assms by (simp only: of_int_less_iff)
    then have "\<bar>real_of_int n\<bar> < 2 ^ 53"
      by simp
    also have "(2::real) ^ 53 \<le> 2 ^ 1024"
      by (rule power_increasing) simp_all
    finally show ?thesis .
  qed
  ultimately show ?thesis
    by (rule to_double_exact)
qed

lemma ulp_large:
  assumes "2 ^ 53 \<le> \<bar>x\<bar>"
  shows "2 \<le> ulp x" "2 ^ 52 * ulp x \<le> \<bar>x\<bar>"
proof -
  define e where "e = exponent \<bar>x\<bar>"
  have "(0::real) < 2 ^ 53"
    by simp
  with assms have pos: "0 < \<bar>x\<bar>"
    by linarith
  note b = exponent_bounds [OF pos, folded e_def]
  have e: "53 \<le> e"
  proof (rule ccontr)
    assume "\<not> 53 \<le> e"
    then have "2 powi (e + 1) \<le> (2::real) powi 53"
      by (intro power_int_increasing) simp_all
    with b(2) assms show False by simp
  qed
  then have u: "ulp x = 2 powi (e - 52)"
    by (simp add: ulp_def e_def max_def)
  have "2 powi 1 \<le> (2::real) powi (e - 52)"
    using e by (intro power_int_increasing) simp_all
  then show "2 \<le> ulp x"
    by (simp add: u)
  have "ulp x = 2 powi e / 2 powi 52"
    unfolding u by (rule power_int_diff) simp
  then have "2 ^ 52 * ulp x = 2 powi e"
    by simp
  then show "2 ^ 52 * ulp x \<le> \<bar>x\<bar>"
    using b(1) by simp
qed

lemma to_double_large_pos:
  assumes "2 ^ 53 \<le> x"
  shows "to_double x = PosInf \<or> (\<exists>r. to_double x = Fin r \<and> 2 ^ 53 \<le> r)"
proof -
  have "(0::real) < 2 ^ 53"
    by simp
  with assms have x: "2 ^ 53 \<le> \<bar>x\<bar>" "0 < x"
    by linarith+
  note u = ulp_large [OF x(1)]
  have "2 ^ 52 * ulp x \<le> x"
    using u(2) x(2) by simp
  then have "2 ^ 52 \<le> x / ulp x"
    using ulp_pos [of x] by (simp only: pos_le_divide_eq)
  then have "of_int (2 ^ 52) \<le> x / ulp x"
    by simp
  then have "2 ^ 52 \<le> round_half_even (x / ulp x)"
    by (rule round_half_even_ge)
  then have "real_of_int (2 ^ 52) \<le> of_int (round_half_even (x / ulp x))"
    by (simp only: of_int_le_iff)
  then have "2 ^ 52 * 2 \<le> of_int (round_half_even (x / ulp x)) * ulp x"
    using u(1) by (intro mult_mono) simp_all
  then show ?thesis
    using x(2) by (simp add: to_double_def Let_def)
qed

lemma to_double_large_neg:
  assumes "x \<le> - (2 ^ 53)"
  shows "to_double x = NegInf \<or> (\<exists>r. to_double x = Fin r \<and> r \<le> - (2 ^ 53))"
proof -
  have "(0::real) < 2 ^ 53"
    by simp
  with assms have x: "2 ^ 53 \<le> \<bar>x\<bar>" "x < 0"
    by linarith+
  note u = ulp_large [OF x(1)]
  have "2 ^ 52 * ulp x \<le> - x"
    using u(2) x(2) by simp
  then have "2 ^ 52 \<le> (- x) / ulp x"
    using ulp_pos [of x] by (simp only: pos_le_divide_eq)
  then have "x / ulp x \<le> of_int (- (2 ^ 52))"
    by simp
  then have "round_half_even (x / ulp x) \<le> - (2 ^ 52)"
    by (rule round_half_even_le)
  then have "real_of_int (round_half_even (x / ulp x)) \<le> of_int (- (2 ^ 52))"
    by (simp only: of_int_le_iff)
  then have "2 ^ 52 \<le> - real_of_int (round_half_even (x / ulp x))"
    by simp
  then have "2 ^ 52 * 2 \<le> (- real_of_int (round_half_even (x / ulp x))) * ulp x"
    using u(1) by (intro mult_mono) simp_all
  then have "of_int (round_half_even (x / ulp x)) * ulp x \<le> - (2 ^ 53)"
    by simp
  then show ?thesis
    using x(2) by (simp add: to_double_def Let_def)
qed

lemma to_double_half: "to_double (1 / 2) = Fin (1 / 2)"
proof -
  have e: "exponent \<bar>1 / 2 :: real\<bar> = - 1"
    by (rule exponent_unique) simp_all
  have u: "ulp (1 / 2) = 1 / 2 ^ 53"
    unfolding ulp_def e by simp
  have "(1 / 2 :: real) / ulp (1 / 2) = of_int (2 ^ 52)"
    by (simp add: u)
  then show ?thesis
    by (rule to_double_exact) simp
qed

text \<open>The rounded operations on whole numbers below \<open>2 ^ 53\<close> are exact.\<close>

lemma rounded_int:
  assumes "\<bar>n\<bar> < 2 ^ 53"
  shows "rounded (Fin (of_int n)) = Fin (of_int n)"
  using to_double_int [OF assms] by (simp add: rounded_def)

lemma add_d_int:
  assumes "\<bar>a + b\<bar> < 2 ^ 53"
  shows "add_d (Fin (of_int a)) (Fin (of_int b)) = Fin (of_int (a + b))"
  using rounded_int [OF assms] by (simp add: add_d_def)

lemma sub_d_int:
  assumes "\<bar>a - b\<bar> < 2 ^ 53"
  shows "sub_d (Fin (of_int a)) (Fin (of_int b)) = Fin (of_int (a - b))"
  using rounded_int [OF assms] by (simp add: sub_d_def)

lemma mul_d_int:
  assumes "\<bar>a * b\<bar> < 2 ^ 53"
  shows "mul_d (Fin (of_int a)) (Fin (of_int b)) = Fin (of_int (a * b))"
  using rounded_int [OF assms] by (simp add: mul_d_def)

section \<open>Snapping\<close>

text \<open>
  C7, as stated, fails: the pixel-to-minute conversion of a resize yields fractional minute
  values, and at the midpoint \<open>7.5\<close> the snap goes up to \<open>15\<close>, which is \<open>7.5\<close> away from
  the value, more than the claimed \<open>7\<close>.
\<close>

theorem snapToStep_midpoint_counterexample:
  "snapToStep (Fin (15 / 2)) SNAP_MINUTES = Fin 15 \<and> \<not> \<bar>(15::real) - 15 / 2\<bar> \<le> 7"
  by (simp add: snapToStep_def SNAP_MINUTES_def)

text \<open>
  C7, amended: for every finite minute value \<open>v\<close>, \<open>snapToStep v\<close> is a multiple of 15 at
  distance at most \<open>7.5\<close> from \<open>v\<close>, and at distance at most \<open>7\<close> when \<open>v\<close> is a whole number
  of minutes.
\<close>

theorem snapToStep_nearest_multiple:
  "\<exists>k::int. snapToStep (Fin v) SNAP_MINUTES = Fin (of_int k * 15)
     \<and> \<bar>of_int k * 15 - v\<bar> \<le> 15 / 2
     \<and> (v \<in> \<int> \<longrightarrow> \<bar>of_int k * 15 - v\<bar> \<le> 7)"
proof -
  let ?k = "\<lfloor>v / 15 + 1 / 2\<rfloor>"
  have "snapToStep (Fin v) SNAP_MINUTES = Fin (of_int ?k * 15)"
    by (rule snapToStep_Fin)
  moreover have "\<bar>of_int ?k * 15 - v\<bar> \<le> 15 / 2"
    by (rule round_half_bounds)
  moreover have "v \<in> \<int> \<longrightarrow> \<bar>of_int ?k * 15 - v\<bar> \<le> 7"
  proof
    assume "v \<in> \<int>"
    then obtain n :: int where "v = of_int n"
      by (auto elim: Ints_cases)
    then show "\<bar>of_int ?k * 15 - v\<bar> \<le> 7"
      using round_half_bounds_int [of n] by simp
  qed
  ultimately show ?thesis
    by blast
qed

theorem snapToStep_nearest_multiple_witness:
  "(8::real) \<in> \<int> \<and> snapToStep (Fin 8) SNAP_MINUTES = Fin 15 \<and> \<bar>(15::real) - 8\<bar> \<le> 7"
proof -
  have "snapToStep (Fin 8) SNAP_MINUTES = Fin 15"
    by (simp add: snapToStep_def SNAP_MINUTES_def)
  with snapToStep_nearest_multiple [of 8] show ?thesis
    by simp
qed

section \<open>Viewport virtualizer\<close>



section \<open>Drop on a date cell\<close>

text \<open>
  C9: a drop on a date cell with target employee \<open>E\<close> and date \<open>D\<close> keeps the number and
  order of the shifts; every shift keeps its id, title, start and end; a shift whose id is
  not the dragged one is unchanged; and the dragged shift (the transferred id is not empty)
  becomes itself with \<open>employeeId = E\<close> and \<open>dateKey = D\<close>.
\<close>

theorem handleDropOnDateCell_frame:
  "length (shifts (handleDropOnDateCell sid E D st)) = length (shifts st)
   \<and> (\<forall>i < length (shifts st).
        id' (shifts (handleDropOnDateCell sid E D st) ! i) = id' (shifts st ! i)
      \<and> title (shifts (handleDropOnDateCell sid E D st) ! i) = title (shifts st ! i)
      \<and> start (shifts (handleDropOnDateCell sid E D st) ! i) = start (shifts st ! i)
      \<and> end' (shifts (handleDropOnDateCell sid E D st) ! i) = end' (shifts st ! i)
      \<and> (id' (shifts st ! i) \<noteq> sid \<longrightarrow>
           shifts (handleDropOnDateCell sid E D st) ! i = shifts st ! i)
      \<and> (id' (shifts st ! i) = sid \<and> sid \<noteq> [] \<longrightarrow>
           shifts (handleDropOnDateCell sid E D st) ! i = (shifts st ! i)\<lparr>employeeId := E, dateKey := D\<rparr>))"
  by (simp add: handleDropOnDateCell_def)

theorem handleDropOnDateCell_frame_witness:
  "shifts (handleDropOnDateCell ''A'' ''e2'' ''2024-01-16'' (idle [shift_A, shift_B]))
     = [shift_A\<lparr>employeeId := ''e2'', dateKey := ''2024-01-16''\<rparr>, shift_B]"
proof -
  let ?st = "idle [shift_A, shift_B]"
  let ?new = "shifts (handleDropOnDateCell ''A'' ''e2'' ''2024-01-16'' ?st)"
  note frame = handleDropOnDateCell_frame [of "''A''" "''e2''" "''2024-01-16''" ?st]
  have old: "shifts ?st = [shift_A, shift_B]"
    by (simp add: idle_def)
  have ids: "id' shift_A = ''A''" "id' shift_B \<noteq> ''A''"
    by (simp_all add: shift_A_def shift_B_def)
  from frame have len: "length ?new = 2"
    by (simp add: old)
  from frame have "0 < length (shifts ?st) \<longrightarrow> (id' (shifts ?st ! 0) = ''A'' \<and> ''A'' \<noteq> [] \<longrightarrow>
      ?new ! 0 = (shifts ?st ! 0)\<lparr>employeeId := ''e2'', dateKey := ''2024-01-16''\<rparr>)"
    by blast
  then have n0: "?new ! 0 = shift_A\<lparr>employeeId := ''e2'', dateKey := ''2024-01-16''\<rparr>"
    by (simp add: old ids)
  from frame have "1 < length (shifts ?st) \<longrightarrow> (id' (shifts ?st ! 1) \<noteq> ''A'' \<longrightarrow>
      ?new ! 1 = shifts ?st ! 1)"
    by blast
  then have n1: "?new ! 1 = shift_B"
    by (simp add: old ids)
  from len obtain x y where xy: "?new = [x, y]"
    by (auto simp: length_Suc_conv numeral_2_eq_2)
  with n0 n1 show ?thesis
    by simp
qed

section \<open>Resize\<close>

lemma plus_Fin_NaN [simp]: "(Fin a + d = NaN) = (d = NaN)"
  by (cases d) simp_all

lemma add_d_Fin_NaN [simp]: "(add_d (Fin a) d = NaN) = (d = NaN)"
  by (simp add: add_d_def)

lemma clamp_bounds:
  assumes "v \<noteq> NaN"
  shows "\<exists>r. clamp v (Fin lo) (Fin hi) = Fin r \<and> r \<le> hi \<and> (lo \<le> hi \<longrightarrow> lo \<le> r)"
  using assms by (cases v) (auto simp: clamp_def Math_max_def Math_min_def)

lemma snapToStep_15: "snapToStep (Fin v) SNAP_MINUTES = Fin (15 * of_int \<lfloor>v / 15 + 1 / 2\<rfloor>)"
  by (simp add: snapToStep_def SNAP_MINUTES_def)

text \<open>
  For finite coordinates and a non-zero scale the snapped displacement is never \<open>NaN\<close>: it
  is a whole multiple of 15 (the snap itself computes exactly), or infinite when the
  quotient overflows.
\<close>

lemma snapToStep_cases:
  assumes "v \<noteq> NaN"
  shows "snapToStep v SNAP_MINUTES = PosInf \<or> snapToStep v SNAP_MINUTES = NegInf
    \<or> (\<exists>k::int. snapToStep v SNAP_MINUTES = Fin (15 * of_int k))"
proof (cases v)
  case (Fin r)
  show ?thesis
    unfolding Fin snapToStep_15 by blast
next
  case PosInf
  then show ?thesis by (simp add: snapToStep_def SNAP_MINUTES_def)
next
  case NegInf
  then show ?thesis by (simp add: snapToStep_def SNAP_MINUTES_def)
next
  case NaN
  with assms show ?thesis by simp
qed

lemma snapped_delta:
  assumes "pph \<noteq> 0"
    and "d = snapToStep (mul_d (div_d (sub_d (Fin x) (Fin ox)) (Fin pph)) (Fin 60)) SNAP_MINUTES"
  shows "d = PosInf \<or> d = NegInf \<or> (\<exists>k::int. d = Fin (15 * of_int k))"
proof -
  have a: "sub_d (Fin x) (Fin ox) \<noteq> NaN"
    by (simp add: sub_d_def)
  have b: "div_d v (Fin pph) \<noteq> NaN" if "v \<noteq> NaN" for v
    using that assms(1) by (cases v) (simp_all add: div_d_def)
  have c: "mul_d v (Fin 60) \<noteq> NaN" if "v \<noteq> NaN" for v
    using that by (cases v) (simp_all add: mul_d_def)
  show ?thesis
    unfolding assms(2) by (rule snapToStep_cases [OF c [OF b [OF a]]])
qed

text \<open>
  C1, as stated, fails: the precondition \<open>originStart + 30 \<le> originEnd\<close> alone does not keep
  the duration. A stored shift \<open>1425..1455\<close> (the load checks field types only) satisfies it,
  and a right-edge pointer move with no pointer displacement clamps its end to
  \<open>clamp(1455, 1455, 1440) = 1440\<close>, a duration of 15 minutes.
\<close>

theorem resize_out_of_day_counterexample:
  "(1425::real) + 30 \<le> 1455
   \<and> shifts (onPointerMove (Fin 100)
         (startResize (Fin 100) late_shift Right HOUR_WIDTH (idle [late_shift])))
       = [late_shift\<lparr>start := Fin 1425, end' := Fin 1440\<rparr>]
   \<and> \<not> (30::real) \<le> 1440 - 1425"
proof -
  have zero: "rounded (Fin 0) = Fin 0"
    by (simp add: rounded_def to_double_def)
  have e: "add_d (Fin 1455) (Fin 0) = Fin 1455"
    using add_d_int [of 1455 0] by simp
  have s: "add_d (Fin 1425) (Fin 30) = Fin 1455"
    using add_d_int [of 1425 30] by simp
  have d: "snapToStep (mul_d (div_d (sub_d (Fin 100) (Fin 100)) (Fin 72)) (Fin 60)) SNAP_MINUTES
      = Fin 0"
    by (simp add: sub_d_def div_d_def mul_d_def zero snapToStep_def SNAP_MINUTES_def)
  have "shifts (onPointerMove (Fin 100)
         (startResize (Fin 100) late_shift Right HOUR_WIDTH (idle [late_shift])))
       = [late_shift\<lparr>start := Fin 1425, end' := Fin 1440\<rparr>]"
    by (simp add: onPointerMove_def idle_def startResize_def resizeShift_def late_shift_def
        HOUR_WIDTH_def d e s MIN_SHIFT_MINUTES_def MINUTES_IN_DAY_def)
  then show ?thesis
    by simp
qed

text \<open>
  The rounding of the listener decides its result. At \<open>pixelsPerHour = 3.8095238095238098\<close>
  (a week view 904 pixels wide) a displacement of 10 pixels gives the quotient \<open>2.625\<close>, the
  product \<open>157.5\<close> and the snapped displacement 165, where the exact quotient lies below the
  tie and would snap to 150. With the fractional origin start \<open>1000.0000000000001\<close> the lower
  bound \<open>originStart + 30\<close> of the right edge is the double 1030, less than 30 minutes after
  the start.
\<close>

lemma div_d_tie: "div_d (Fin 10) (Fin (8578285004515231 / 2251799813685248)) = Fin (21 / 8)"
proof -
  define x :: real where "x = 22517998136852480 / 8578285004515231"
  have e: "exponent \<bar>x\<bar> = 1"
    by (rule exponent_unique) (simp_all add: x_def)
  have r: "round_half_even (x / (1 / 2 ^ 51)) = 5910974510923776"
    by (simp add: x_def round_half_even_def Let_def)
  have "to_double x = Fin (21 / 8)"
    by (rule to_double_eval [OF _ e _ r]) (simp_all add: x_def)
  then show ?thesis
    by (simp add: div_d_def rounded_def x_def)
qed

lemma mul_d_tie: "mul_d (Fin (21 / 8)) (Fin 60) = Fin (315 / 2)"
proof -
  have e: "exponent \<bar>315 / 2 :: real\<bar> = 7"
    by (rule exponent_unique) simp_all
  have u: "ulp (315 / 2) = 1 / 2 ^ 45"
    unfolding ulp_def e by simp
  have "(315 / 2 :: real) / ulp (315 / 2) = of_int (315 * 2 ^ 44)"
    by (simp add: u)
  then have "to_double (315 / 2) = Fin (315 / 2)"
    by (rule to_double_exact) simp
  then show ?thesis
    by (simp add: mul_d_def rounded_def)
qed

lemma resize_tie_example:
  "snapToStep (mul_d (div_d (sub_d (Fin 110) (Fin 100))
       (Fin (8578285004515231 / 2251799813685248))) (Fin 60)) SNAP_MINUTES = Fin 165"
proof -
  have "sub_d (Fin 110) (Fin 100) = Fin 10"
    using sub_d_int [of 110 100] by simp
  then show ?thesis
    by (simp add: div_d_tie mul_d_tie snapToStep_def SNAP_MINUTES_def)
qed

lemma add_d_tie: "add_d (Fin (8796093022208001 / 8796093022208)) (Fin 30) = Fin 1030"
proof -
  define x :: real where "x = 9059975812874241 / 8796093022208"
  have e: "exponent \<bar>x\<bar> = 10"
    by (rule exponent_unique) (simp_all add: x_def)
  have r: "round_half_even (x / (1 / 2 ^ 42)) = 4529987906437120"
    by (simp add: x_def round_half_even_def Let_def)
  have "to_double x = Fin 1030"
    by (rule to_double_eval [OF _ e _ r]) (simp_all add: x_def)
  then show ?thesis
    by (simp add: add_d_def rounded_def x_def)
qed

lemma resize_fractional_origin_example:
  "end' (resizeShift
      \<lparr>shiftId = ''m1'', edge = Right, originX = Fin 100,
       originStart = Fin (8796093022208001 / 8796093022208), originEnd = Fin 1100,
       pixelsPerHour = Fin 72\<rparr> (Fin (- 75)) morning_shift) = Fin 1030
   \<and> (1030::real) - 8796093022208001 / 8796093022208 < 30"
proof -
  have "add_d (Fin 1100) (Fin (- 75)) = Fin 1025"
    using add_d_int [of 1100 "- 75"] by simp
  then show ?thesis
    by (simp add: resizeShift_def morning_shift_def add_d_tie MIN_SHIFT_MINUTES_def
        MINUTES_IN_DAY_def)
qed

text \<open>
  C1, amended: for an active resize whose captured start and end are whole numbers of
  minutes (of magnitude at most \<open>2 ^ 52\<close>) with \<open>originStart + 30 \<le> originEnd\<close> and also
  \<open>originStart + 30 \<le> 1440\<close>, a finite captured pointer position, a finite non-zero
  \<open>pixelsPerHour\<close> and every finite pointer position \<open>x\<close>, the pointer move computes
  \<open>d = snapToStep((x - originX) / pixelsPerHour * 60)\<close> in double arithmetic; it leaves the
  other shifts alone and gives the resized shift
  \<open>start = clamp(originStart + d, 0, originEnd - 30)\<close> and \<open>end = originEnd\<close> for the left edge,
  \<open>start = originStart\<close> and \<open>end = clamp(originEnd + d, originStart + 30, 1440)\<close> for the right
  edge, and so a duration of at least 30 minutes.
\<close>

theorem resize_clamps:
  assumes rs: "resizeState st = Some rs"
    and fin: "originX rs = Fin ox" "pixelsPerHour rs = Fin pph" "pph \<noteq> 0"
    and origin: "originStart rs = Fin (of_int os)" "originEnd rs = Fin (of_int oe)"
    and whole: "\<bar>os\<bar> \<le> 2 ^ 52" "\<bar>oe\<bar> \<le> 2 ^ 52"
    and dur: "os + 30 \<le> oe"
    and day: "os + 30 \<le> 1440"
    and d: "d = snapToStep (mul_d (div_d (sub_d (Fin x) (Fin ox)) (Fin pph)) (Fin 60)) SNAP_MINUTES"
  shows "shifts (onPointerMove (Fin x) st) =
        map (\<lambda>shift. if id' shift \<noteq> shiftId rs then shift
               else if edge rs = Left
               then shift\<lparr>start := clamp (add_d (Fin (of_int os)) d) (Fin 0) (Fin (of_int oe - 30)),
                      end' := Fin (of_int oe)\<rparr>
               else shift\<lparr>start := Fin (of_int os),
                      end' := clamp (add_d (Fin (of_int oe)) d) (Fin (of_int os + 30)) (Fin 1440)\<rparr>)
          (shifts st)
    \<and> (\<forall>s \<in> set (shifts (onPointerMove (Fin x) st)). id' s = shiftId rs \<longrightarrow>
          (\<exists>a b. start s = Fin a \<and> end' s = Fin b \<and> a + 30 \<le> b))"
proof -
  let ?new = "\<lambda>shift. if id' shift \<noteq> shiftId rs then shift
      else if edge rs = Left
      then shift\<lparr>start := clamp (add_d (Fin (of_int os)) d) (Fin 0) (Fin (of_int oe - 30)),
             end' := Fin (of_int oe)\<rparr>
      else shift\<lparr>start := Fin (of_int os),
             end' := clamp (add_d (Fin (of_int oe)) d) (Fin (of_int os + 30)) (Fin 1440)\<rparr>"
  have delta: "d = PosInf \<or> d = NegInf \<or> (\<exists>k::int. d = Fin (15 * of_int k))"
    using fin(3) d by (rule snapped_delta)
  then have nn: "d \<noteq> NaN"
    by auto
  have "\<bar>oe - 30\<bar> < 2 ^ 53"
    using whole(2) by simp
  from sub_d_int [OF this]
  have lo: "sub_d (Fin (of_int oe)) MIN_SHIFT_MINUTES = Fin (of_int oe - 30)"
    by (simp add: MIN_SHIFT_MINUTES_def)
  have "\<bar>os + 30\<bar> < 2 ^ 53"
    using whole(1) by simp
  from add_d_int [OF this]
  have hi: "add_d (Fin (of_int os)) MIN_SHIFT_MINUTES = Fin (of_int os + 30)"
    by (simp add: MIN_SHIFT_MINUTES_def)
  have step: "resizeShift rs d shift = ?new shift" for shift
    by (simp add: resizeShift_def origin lo hi MINUTES_IN_DAY_def)
  have run: "shifts (onPointerMove (Fin x) st) = map (resizeShift rs d) (shifts st)"
    by (simp add: onPointerMove_def rs Let_def fin d)
  have ok: "\<exists>a b. start (resizeShift rs d shift) = Fin a
      \<and> end' (resizeShift rs d shift) = Fin b \<and> a + 30 \<le> b"
    if sid: "id' shift = shiftId rs" for shift
  proof (cases "edge rs = Left")
    case True
    have "add_d (Fin (of_int os)) d \<noteq> NaN"
      using nn by simp
    from clamp_bounds [OF this, of 0 "of_int oe - 30"] obtain r where
      r: "clamp (add_d (Fin (of_int os)) d) (Fin 0) (Fin (of_int oe - 30)) = Fin r"
        "r \<le> of_int oe - 30"
      by blast
    have "start (resizeShift rs d shift) = Fin r" "end' (resizeShift rs d shift) = Fin (of_int oe)"
      using sid True by (simp_all add: step r(1))
    moreover have "r + 30 \<le> of_int oe"
      using r(2) by simp
    ultimately show ?thesis
      by blast
  next
    case False
    have "add_d (Fin (of_int oe)) d \<noteq> NaN"
      using nn by simp
    moreover have le: "real_of_int os + 30 \<le> 1440"
      using day by linarith
    ultimately obtain r where
      r: "clamp (add_d (Fin (of_int oe)) d) (Fin (of_int os + 30)) (Fin 1440) = Fin r"
        "of_int os + 30 \<le> r"
      using clamp_bounds [of "add_d (Fin (of_int oe)) d" "of_int os + 30" 1440] by blast
    have "start (resizeShift rs d shift) = Fin (of_int os)" "end' (resizeShift rs d shift) = Fin r"
      using sid False by (simp_all add: step r(1))
    with r(2) show ?thesis
      by blast
  qed
  have id_keep: "id' (resizeShift rs d shift) = id' shift" for shift
    by (simp add: step)
  show ?thesis
  proof (intro conjI ballI impI)
    show "shifts (onPointerMove (Fin x) st) = map ?new (shifts st)"
      unfolding run by (rule map_cong [OF refl]) (rule step)
  next
    fix s assume "s \<in> set (shifts (onPointerMove (Fin x) st))" and sid: "id' s = shiftId rs"
    then obtain shift where "s = resizeShift rs d shift"
      unfolding run by auto
    with sid ok [of shift] id_keep [of shift] show "\<exists>a b. start s = Fin a \<and> end' s = Fin b \<and> a + 30 \<le> b"
      by simp
  qed
qed

theorem resize_clamps_witness:
  "resizeState ((idle [morning_shift])\<lparr>resizeState := Some morning_resize\<rparr>) = Some morning_resize
   \<and> (72::real) \<noteq> 0 \<and> \<bar>540::int\<bar> \<le> 2 ^ 52 \<and> \<bar>780::int\<bar> \<le> 2 ^ 52
   \<and> (540::int) + 30 \<le> 780 \<and> (540::int) + 30 \<le> 1440
   \<and> snapToStep (mul_d (div_d (sub_d (Fin 136) (Fin 100)) (Fin 72)) (Fin 60)) SNAP_MINUTES = Fin 30
   \<and> shifts (onPointerMove (Fin 136) ((idle [morning_shift])\<lparr>resizeState := Some morning_resize\<rparr>))
       = [morning_shift\<lparr>start := Fin 540, end' := Fin 810\<rparr>]"
proof -
  let ?st = "(idle [morning_shift])\<lparr>resizeState := Some morning_resize\<rparr>"
  have rs: "resizeState ?st = Some morning_resize"
    by simp
  have fin: "originX morning_resize = Fin 100" "pixelsPerHour morning_resize = Fin 72"
    by (simp_all add: morning_resize_def)
  have origin: "originStart morning_resize = Fin (of_int 540)"
    "originEnd morning_resize = Fin (of_int 780)"
    by (simp_all add: morning_resize_def)
  have pph: "(72::real) \<noteq> 0" and whole: "\<bar>540::int\<bar> \<le> 2 ^ 52" "\<bar>780::int\<bar> \<le> 2 ^ 52"
    and dur: "(540::int) + 30 \<le> 780" and day: "(540::int) + 30 \<le> 1440"
    by simp_all
  have px: "sub_d (Fin 136) (Fin 100) = Fin 36"
    using sub_d_int [of 136 100] by simp
  have q: "div_d (Fin 36) (Fin 72) = Fin (1 / 2)"
    by (simp add: div_d_def rounded_def to_double_half)
  have m: "mul_d (Fin (1 / 2)) (Fin 60) = Fin 30"
    using rounded_int [of 30] by (simp add: mul_d_def)
  have d: "Fin 30 = snapToStep (mul_d (div_d (sub_d (Fin 136) (Fin 100)) (Fin 72)) (Fin 60)) SNAP_MINUTES"
    by (simp add: px q m snapToStep_def SNAP_MINUTES_def)
  note run = resize_clamps [OF rs fin pph origin whole dur day d, THEN conjunct1]
  have ids: "shiftId morning_resize = ''m1''" "edge morning_resize = Right" "id' morning_shift = ''m1''"
    by (simp_all add: morning_resize_def morning_shift_def)
  have old: "shifts ?st = [morning_shift]"
    by (simp add: idle_def)
  have e: "add_d (Fin 780) (Fin 30) = Fin 810"
    using add_d_int [of 780 30] by simp
  have "shifts (onPointerMove (Fin 136) ?st) = [morning_shift\<lparr>start := Fin 540, end' := Fin 810\<rparr>]"
    unfolding run old by (simp add: ids e)
  with rs pph whole dur day d [symmetric] show ?thesis
    by (intro conjI)
qed

section \<open>Shift index\<close>












section \<open>Formatting and parsing a time of day\<close>

lemma digitChar_digit:
  assumes "n < 10"
  shows "isDigit (digitChar n)" and "digitValue (digitChar n) = Some n"
proof -
  let ?ds = "''0123456789''"
  have len: "n < length ?ds"
    using assms by simp
  have "list_all isDigit ?ds"
    by (simp add: isDigit_def)
  with len show "isDigit (digitChar n)"
    unfolding digitChar_def list_all_length by blast
  have "map digitValue ?ds = map Some [0..<10]"
    by (simp add: digitValue_def upt_rec)
  then have "map digitValue ?ds ! n = map Some [0..<10] ! n"
    by (rule arg_cong)
  with len assms show "digitValue (digitChar n) = Some n"
    unfolding digitChar_def by (simp only: nth_map length_map length_upt nth_upt) simp
qed

lemma isDigit_other:
  assumes "isDigit c"
  shows "\<not> isWhiteSpace c" "c \<noteq> CHR ''+''" "c \<noteq> CHR ''-''" "c \<noteq> CHR ''.''" "c \<noteq> CHR '':''"
    "c \<noteq> CHR ''x''" "c \<noteq> CHR ''X''" "c \<noteq> CHR ''o''" "c \<noteq> CHR ''O''" "c \<noteq> CHR ''b''"
    "c \<noteq> CHR ''B''" "c \<noteq> CHR ''I''"
  using assms by (auto simp: isDigit_def isWhiteSpace_def)

lemma digits_all: "digits n \<noteq> [] \<and> list_all isDigit (digits n)"
proof (induction n rule: digits.induct)
  case (1 n)
  show ?case
  proof (cases "n < 10")
    case True
    then show ?thesis
      by (subst (1 2) digits.simps) (simp add: digitChar_digit)
  next
    case False
    with 1 have "list_all isDigit (digits (n div 10))" by simp
    moreover have "isDigit (digitChar (n mod 10))" by (simp add: digitChar_digit)
    ultimately show ?thesis
      using False by (subst (1 2) digits.simps) simp
  qed
qed

lemma digitsValue_append:
  "digitsValue r acc (xs @ ys) =
     (case digitsValue r acc xs of Some a \<Rightarrow> digitsValue r a ys | None \<Rightarrow> None)"
  by (induction xs arbitrary: acc) (auto split: option.splits)

lemma digitsValue_digits: "digitsValue 10 0 (digits n) = Some n"
proof (induction n rule: digits.induct)
  case (1 n)
  show ?case
  proof (cases "n < 10")
    case True
    then show ?thesis
      by (subst digits.simps) (simp add: digitChar_digit)
  next
    case False
    with 1 have "digitsValue 10 0 (digits (n div 10)) = Some (n div 10)" by simp
    then show ?thesis
      using False by (subst digits.simps) (simp add: digitsValue_append digitChar_digit)
  qed
qed

lemma digitsValue_zeros: "digitsValue 10 0 (replicate k CHR ''0'' @ ds) = digitsValue 10 0 ds"
  by (induction k) (simp_all add: digitValue_def)

lemma isDigit_zero: "isDigit CHR ''0''"
  by (simp add: isDigit_def)

lemma padStart_digits:
  "padStart (digits n) k CHR ''0'' \<noteq> []"
  "list_all isDigit (padStart (digits n) k CHR ''0'')"
  "digitsValue 10 0 (padStart (digits n) k CHR ''0'') = Some n"
  using digits_all [of n]
  by (auto simp: padStart_def digitsValue_zeros digitsValue_digits isDigit_zero list_all_iff)

lemma trim_digits:
  assumes "ds \<noteq> []" "list_all isDigit ds"
  shows "trim ds = ds"
proof -
  from assms obtain c cs where ds: "ds = c # cs" by (cases ds) auto
  with assms have "\<not> isWhiteSpace c" by (simp add: isDigit_other)
  then have 1: "dropWhile isWhiteSpace ds = ds" by (simp add: ds)
  from assms have "rev ds \<noteq> []" "list_all isDigit (rev ds)" by (simp_all add: list_all_iff)
  then obtain c' cs' where r: "rev ds = c' # cs'" and "isDigit c'" by (cases "rev ds") auto
  then have "\<not> isWhiteSpace c'" by (simp add: isDigit_other)
  then have "dropWhile isWhiteSpace (rev ds) = rev ds" by (simp add: r)
  with 1 show ?thesis by (simp add: trim_def)
qed

lemma take2_digits:
  assumes "list_all isDigit ds"
  shows "take 2 ds \<noteq> [CHR ''0'', x] \<or> isDigit x"
  using assms by (cases ds; cases "tl ds") auto

lemma unsignedDecimalLiteral_digits:
  assumes "ds \<noteq> []" "list_all isDigit ds" "digitsValue 10 0 ds = Some n"
  shows "unsignedDecimalLiteral ds = Fin (real n)"
proof -
  from assms obtain c cs where ds: "ds = c # cs" and c: "isDigit c" by (cases ds) auto
  have inf: "ds \<noteq> ''Infinity''"
    using c isDigit_other(12) [OF c] by (auto simp: ds)
  have tw: "takeWhile isDigit ds = ds" "dropWhile isDigit ds = []"
    using assms(2) by (simp_all add: list_all_iff)
  show ?thesis
    using inf assms(1,3) by (simp add: unsignedDecimalLiteral_def tw exponentPart_def)
qed

lemma Number_digits:
  assumes "ds \<noteq> []" "list_all isDigit ds" "digitsValue 10 0 ds = Some n"
  shows "Number ds = Fin (real n)"
proof -
  from assms obtain c cs where ds: "ds = c # cs" and c: "isDigit c" by (cases ds) auto
  have t: "trim ds = ds" by (rule trim_digits [OF assms(1,2)])
  have pre: "take 2 ds \<noteq> ''0x''" "take 2 ds \<noteq> ''0X''" "take 2 ds \<noteq> ''0o''" "take 2 ds \<noteq> ''0O''"
    "take 2 ds \<noteq> ''0b''" "take 2 ds \<noteq> ''0B''"
    using take2_digits [OF assms(2)] by (auto dest: isDigit_other)
  have sign: "hd ds \<noteq> CHR ''+''" "hd ds \<noteq> CHR ''-''"
    using isDigit_other [OF c] by (simp_all add: ds)
  show ?thesis
    using assms(1) by (simp add: Number_def t pre sign unsignedDecimalLiteral_digits [OF assms])
qed

lemma split_no_sep: "sep \<notin> set s \<Longrightarrow> String_split s sep = [s]"
  by (induction s) auto

lemma split_append: "sep \<notin> set a \<Longrightarrow> String_split (a @ sep # b) sep = a # String_split b sep"
  by (induction a) auto

lemma no_colon: "list_all isDigit ds \<Longrightarrow> CHR '':'' \<notin> set ds"
  by (auto simp: list_all_iff dest: isDigit_other(5))

lemma parseTime_components:
  assumes "String_split v CHR '':'' = hs # ms # rest" "Number hs = Fin h" "Number ms = Fin m"
  shows "parseTime v =
     (if h < 0 \<or> 23 < h \<or> m < 0 \<or> 59 < m then None else Some (Fin (h * 60 + m)))"
  by (simp add: parseTime_def assms destructure_def Number_isNaN_def ToNumber_def)

lemma formatTime_int:
  assumes "0 \<le> m" "m \<le> 1440"
  shows "formatTime (Fin (of_int m)) =
     Some (padStart (digits (nat (m div 60))) 2 CHR ''0'' @ '':'' @
           padStart (digits (nat (m mod 60))) 2 CHR ''0'')"
proof -
  have c: "clamp (Fin (of_int m)) (Fin 0) MINUTES_IN_DAY = Fin (of_int m)"
    using assms by (simp add: MINUTES_IN_DAY_def min_def max_def)
  have fl: "\<lfloor>real_of_int m / 60\<rfloor> = m div 60"
    using floor_divide_of_int_eq [of m 60] by simp
  have h: "Math_floor (Fin (of_int m) / Fin 60) = Fin (of_int (m div 60))"
    by (simp add: fl)
  have "0 \<le> real_of_int m / 60" using assms by simp
  then have "trunc (real_of_int m / 60) = m div 60"
    by (simp add: trunc_def fl)
  then have r: "remainder (Fin (of_int m)) (Fin 60) = Fin (of_int (m mod 60))"
    by (simp add: minus_mult_div_eq_mod [symmetric] del: minus_mult_div_eq_mod) 
  have sh: "String_number (Fin (of_int (m div 60))) = Some (digits (nat (m div 60)))"
  proof -
    have "0 \<le> m div 60" "m div 60 \<le> 24" using assms by auto
    then have "\<bar>real_of_int (m div 60)\<bar> \<le> 24" by linarith
    moreover have "(24::real) < 10 ^ 21" by simp
    ultimately have "\<bar>real_of_int (m div 60)\<bar> < 10 ^ 21" by (rule le_less_trans)
    with \<open>0 \<le> m div 60\<close> show ?thesis by (simp add: String_number_def)
  qed
  have sm: "String_number (Fin (of_int (m mod 60))) = Some (digits (nat (m mod 60)))"
  proof -
    have "0 \<le> m mod 60" "m mod 60 < 60" by auto
    then have "\<bar>real_of_int (m mod 60)\<bar> \<le> 60" by linarith
    moreover have "(60::real) < 10 ^ 21" by simp
    ultimately have "\<bar>real_of_int (m mod 60)\<bar> < 10 ^ 21" by (rule le_less_trans)
    with \<open>0 \<le> m mod 60\<close> show ?thesis by (simp add: String_number_def)
  qed
  show ?thesis
    unfolding formatTime_def c Let_def h r sh sm by simp
qed

text \<open>
  C6, as stated, fails at the endpoint: \<open>formatTime(1440)\<close> is \<open>24:00\<close>, whose hour
  \<open>parseTime\<close> rejects (\<open>h > 23\<close>), so the round trip gives \<open>null\<close> and not
  \<open>clamp(1440, 0, 1440) = 1440\<close>.
\<close>

theorem formatTime_parseTime_midnight_counterexample:
  "clamp (Fin 1440) (Fin 0) MINUTES_IN_DAY = Fin 1440
   \<and> formatTime (Fin 1440) = Some ''24:00''
   \<and> parseTime ''24:00'' = None"
  by (simp add: formatTime_def MINUTES_IN_DAY_def String_number_def trunc_def padStart_def
      digits.simps digitChar_def
      parseTime_def Number_def trim_def isWhiteSpace_def unsignedDecimalLiteral_def isDigit_def
      digitValue_def exponentPart_def destructure_def Number_isNaN_def ToNumber_def)

text \<open>
  C6, amended: for every integer \<open>m\<close> with \<open>0 \<le> m \<le> 1439\<close>, \<open>formatTime(m)\<close> is a string
  that \<open>parseTime\<close> maps back to \<open>clamp(m, 0, 1440)\<close>, that is to \<open>m\<close>.
\<close>

theorem formatTime_parseTime_roundtrip:
  assumes "0 \<le> m" "m \<le> 1439"
  shows "\<exists>s. formatTime (Fin (of_int m)) = Some s
    \<and> parseTime s = Some (clamp (Fin (of_int m)) (Fin 0) MINUTES_IN_DAY)"
proof -
  let ?h = "nat (m div 60)" and ?m = "nat (m mod 60)"
  let ?hs = "padStart (digits ?h) 2 CHR ''0''" and ?ms = "padStart (digits ?m) 2 CHR ''0''"
  have f: "formatTime (Fin (of_int m)) = Some (?hs @ '':'' @ ?ms)"
    using assms by (simp add: formatTime_int)
  have sp: "String_split (?hs @ '':'' @ ?ms) CHR '':'' = [?hs, ?ms]"
    using no_colon [OF padStart_digits(2), of ?h 2] no_colon [OF padStart_digits(2), of ?m 2]
    by (simp add: split_append split_no_sep)
  have nh: "Number ?hs = Fin (real ?h)" and nm: "Number ?ms = Fin (real ?m)"
    by (rule Number_digits [OF padStart_digits])+
  have hb: "real ?h \<le> 23"
  proof -
    from assms have "m div 60 \<le> 23" by auto
    moreover from assms have "0 \<le> m div 60" by auto
    ultimately show ?thesis by linarith
  qed
  have mb: "real ?m \<le> 59"
  proof -
    have "m mod 60 < 60" "0 \<le> m mod 60" by auto
    then show ?thesis by linarith
  qed
  have val: "real ?h * 60 + real ?m = real_of_int m"
  proof -
    from assms have "0 \<le> m div 60" by auto
    then have "real ?h = real_of_int (m div 60)" by simp
    moreover have "real ?m = real_of_int (m mod 60)" by simp
    moreover have "(m div 60) * 60 + m mod 60 = m" by simp
    then have "real_of_int (m div 60) * 60 + real_of_int (m mod 60) = real_of_int m"
      by (metis of_int_add of_int_mult of_int_numeral)
    ultimately show ?thesis by simp
  qed
  have rng: "\<not> (real ?h < 0 \<or> 23 < real ?h \<or> real ?m < 0 \<or> 59 < real ?m)"
    using hb mb by simp
  have p: "parseTime (?hs @ '':'' @ ?ms) = Some (Fin (real_of_int m))"
    by (simp only: parseTime_components [OF sp nh nm] rng if_False val)
  have c: "clamp (Fin (of_int m)) (Fin 0) MINUTES_IN_DAY = Fin (of_int m)"
    using assms by (simp add: MINUTES_IN_DAY_def min_def max_def)
  show ?thesis
    unfolding c using f p by blast
qed

theorem formatTime_parseTime_roundtrip_witness:
  "(0::int) \<le> 570 \<and> (570::int) \<le> 1439
   \<and> formatTime (Fin 570) = Some ''09:30'' \<and> parseTime ''09:30'' = Some (Fin 570)"
proof -
  have f: "formatTime (Fin 570) = Some ''09:30''"
    by (simp add: formatTime_def MINUTES_IN_DAY_def String_number_def trunc_def padStart_def
        digits.simps digitChar_def)
  have c: "clamp (Fin 570) (Fin 0) MINUTES_IN_DAY = Fin 570"
    by (simp add: MINUTES_IN_DAY_def)
  from formatTime_parseTime_roundtrip [of 570]
  have "\<exists>s. formatTime (Fin 570) = Some s
      \<and> parseTime s = Some (clamp (Fin 570) (Fin 0) MINUTES_IN_DAY)"
    by simp
  then obtain s where "formatTime (Fin 570) = Some s" "parseTime s = Some (Fin 570)"
    by (auto simp only: c)
  with f have "parseTime ''09:30'' = Some (Fin 570)"
    by simp
  with f show ?thesis
    by simp
qed

text \<open>
  C10: \<open>parseTime\<close> looks at the first two components only. For every string whose first two
  colon-separated components are decimal numerals \<open>h \<le> 23\<close> and \<open>m \<le> 59\<close>, whatever
  components follow, it returns \<open>h * 60 + m\<close>; \<open>parseTime("09:30:00")\<close> is \<open>570\<close>, not \<open>null\<close>.
\<close>

theorem parseTime_ignores_further_components:
  "(String_split v CHR '':'' = hs # ms # rest
      \<and> hs \<noteq> [] \<and> list_all isDigit hs \<and> digitsValue 10 0 hs = Some h \<and> h \<le> 23
      \<and> ms \<noteq> [] \<and> list_all isDigit ms \<and> digitsValue 10 0 ms = Some m \<and> m \<le> 59
      \<longrightarrow> parseTime v = Some (Fin (real h * 60 + real m)))
   \<and> parseTime ''09:30:00'' = Some (Fin 570)"
proof (intro conjI impI)
  assume a: "String_split v CHR '':'' = hs # ms # rest
      \<and> hs \<noteq> [] \<and> list_all isDigit hs \<and> digitsValue 10 0 hs = Some h \<and> h \<le> 23
      \<and> ms \<noteq> [] \<and> list_all isDigit ms \<and> digitsValue 10 0 ms = Some m \<and> m \<le> 59"
  then have nh: "Number hs = Fin (real h)" and nm: "Number ms = Fin (real m)"
    by (simp_all add: Number_digits)
  from a have rng: "\<not> (real h < 0 \<or> 23 < real h \<or> real m < 0 \<or> 59 < real m)"
    by simp
  from a have sp: "String_split v CHR '':'' = hs # ms # rest"
    by simp
  show "parseTime v = Some (Fin (real h * 60 + real m))"
    by (simp only: parseTime_components [OF sp nh nm] rng if_False)
next
  show "parseTime ''09:30:00'' = Some (Fin 570)"
    by (simp add: parseTime_def Number_def trim_def isWhiteSpace_def unsignedDecimalLiteral_def
        isDigit_def digitValue_def exponentPart_def destructure_def Number_isNaN_def ToNumber_def)
qed

theorem parseTime_ignores_further_components_witness:
  "String_split ''09:30:00'' CHR '':'' = [''09'', ''30'', ''00'']
   \<and> digitsValue 10 0 ''09'' = Some 9 \<and> digitsValue 10 0 ''30'' = Some 30
   \<and> parseTime ''09:30:00'' = Some (Fin (9 * 60 + 30))"
proof -
  have sp: "String_split ''09:30:00'' CHR '':'' = [''09'', ''30'', ''00'']"
    by simp
  have h: "''09'' \<noteq> [] \<and> list_all isDigit ''09'' \<and> digitsValue 10 0 ''09'' = Some 9 \<and> (9::nat) \<le> 23"
    by (simp add: isDigit_def digitValue_def)
  have m: "''30'' \<noteq> [] \<and> list_all isDigit ''30'' \<and> digitsValue 10 0 ''30'' = Some 30 \<and> (30::nat) \<le> 59"
    by (simp add: isDigit_def digitValue_def)
  from parseTime_ignores_further_components [of "''09:30:00''" "''09''" "''30''" "[''00'']" 9 30]
    sp h m
  have "parseTime ''09:30:00'' = Some (Fin (real 9 * 60 + real 30))"
    by blast
  with sp h m show ?thesis
    by simp
qed

section \<open>The shift invariants along the mutation paths\<close>

text \<open>
  A shift satisfies the invariants exactly when its start and end are \<open>15 * i\<close> and
  \<open>15 * j\<close> for integers \<open>0 \<le> i\<close>, \<open>i + 2 \<le> j\<close>, \<open>j \<le> 96\<close>. A resize from a state captured
  from such a shift, a drop on the hour timeline and a drop on a date cell keep the
  invariants of every shift of the collection, for finite pointer coordinates.
\<close>

lemma trunc_of_int: "trunc (of_int k) = k"
  by (simp add: trunc_def)

lemma multiple_of_15:
  "(remainder (Fin a) SNAP_MINUTES = Fin 0) = (\<exists>k::int. a = 15 * of_int k)"
proof
  assume "remainder (Fin a) SNAP_MINUTES = Fin 0"
  then have "a = 15 * of_int (trunc (a / 15))"
    by (simp add: SNAP_MINUTES_def)
  then show "\<exists>k::int. a = 15 * of_int k" ..
next
  assume "\<exists>k::int. a = 15 * of_int k"
  then obtain k :: int where a: "a = 15 * of_int k" ..
  then have "a / 15 = of_int k" by simp
  then have "trunc (a / 15) = k" by (simp only: trunc_of_int)
  with a show "remainder (Fin a) SNAP_MINUTES = Fin 0"
    by (simp add: SNAP_MINUTES_def)
qed

lemma shift_ok_iff:
  "shift_ok s = (\<exists>i j :: int. start s = Fin (15 * of_int i) \<and> end' s = Fin (15 * of_int j)
      \<and> 0 \<le> i \<and> i + 2 \<le> j \<and> j \<le> 96)"
proof
  assume ok: "shift_ok s"
  then obtain a where a: "start s = Fin a"
    by (cases "start s") (auto simp: shift_ok_def less_eq_number_def)
  from ok obtain b where b: "end' s = Fin b"
    by (cases "end' s") (auto simp: shift_ok_def less_eq_number_def MINUTES_IN_DAY_def)
  from ok a b obtain i j :: int where i: "a = 15 * of_int i" and j: "b = 15 * of_int j"
    unfolding shift_ok_def by (auto simp: multiple_of_15)
  from ok have "0 \<le> a" "a + 30 \<le> b" "b \<le> 1440"
    by (simp_all add: shift_ok_def a b MINUTES_IN_DAY_def MIN_SHIFT_MINUTES_def)
  then have "0 \<le> i" "i + 2 \<le> j" "j \<le> 96"
    unfolding i j by linarith+
  with a b i j show "\<exists>i j :: int. start s = Fin (15 * of_int i) \<and> end' s = Fin (15 * of_int j)
      \<and> 0 \<le> i \<and> i + 2 \<le> j \<and> j \<le> 96"
    by blast
next
  assume "\<exists>i j :: int. start s = Fin (15 * of_int i) \<and> end' s = Fin (15 * of_int j)
      \<and> 0 \<le> i \<and> i + 2 \<le> j \<and> j \<le> 96"
  then obtain i j :: int where s: "start s = Fin (15 * of_int i)" and e: "end' s = Fin (15 * of_int j)"
    and r: "0 \<le> i" "i + 2 \<le> j" "j \<le> 96"
    by blast
  have m: "remainder (start s) SNAP_MINUTES = Fin 0" "remainder (end' s) SNAP_MINUTES = Fin 0"
    unfolding s e multiple_of_15 by blast+
  from r have "(0::real) \<le> 15 * of_int i" "15 * real_of_int i + 30 \<le> 15 * of_int j"
    "15 * real_of_int j \<le> 1440"
    by linarith+
  then show "shift_ok s"
    using m by (simp add: shift_ok_def s e MINUTES_IN_DAY_def MIN_SHIFT_MINUTES_def)
qed

lemma min_max_15:
  "min (max (15 * real_of_int x) (15 * of_int y)) (15 * of_int z) = 15 * of_int (min (max x y) z)"
  by (simp add: min_def max_def)

lemma shift_ok_update:
  "shift_ok (s\<lparr>employeeId := e, dateKey := d\<rparr>) = shift_ok s"
  "shift_ok (s\<lparr>employeeId := e, dateKey := d, title := t, start := a, end' := b\<rparr>)
     = shift_ok (s\<lparr>start := a, end' := b\<rparr>)"
  "shift_ok (s\<lparr>employeeId := e, dateKey := d, start := a, end' := b\<rparr>)
     = shift_ok (s\<lparr>start := a, end' := b\<rparr>)"
  by (simp_all add: shift_ok_def)

lemma shift_ok_interval:
  assumes "0 \<le> i" "i + 2 \<le> j" "j \<le> 96"
  shows "shift_ok (s\<lparr>start := Fin (15 * of_int i), end' := Fin (15 * of_int j)\<rparr>)"
  unfolding shift_ok_iff using assms by auto

lemma clamp_15:
  assumes v: "v = PosInf \<or> v = NegInf \<or> (\<exists>r. v = Fin r \<and> (2 ^ 53 \<le> r \<or> r \<le> - (2 ^ 53)))
      \<or> (\<exists>m::int. v = Fin (15 * of_int m))"
    and ab: "0 \<le> a" "a \<le> b" "b \<le> 96"
  shows "\<exists>c::int. clamp v (Fin (15 * of_int a)) (Fin (15 * of_int b)) = Fin (15 * of_int c)
    \<and> a \<le> c \<and> c \<le> b"
proof -
  have le: "15 * real_of_int a \<le> 15 * real_of_int b" "0 \<le> 15 * real_of_int a"
    "15 * real_of_int b \<le> 1440"
    using ab by linarith+
  from v consider "v = PosInf" | "v = NegInf" | r where "v = Fin r" "2 ^ 53 \<le> r"
    | r where "v = Fin r" "r \<le> - (2 ^ 53)" | m :: int where "v = Fin (15 * of_int m)"
    by blast
  then show ?thesis
  proof cases
    case 1
    have "clamp v (Fin (15 * of_int a)) (Fin (15 * of_int b)) = Fin (15 * of_int b)"
      by (simp add: 1 clamp_def Math_max_def Math_min_def)
    with ab show ?thesis by blast
  next
    case 2
    have "clamp v (Fin (15 * of_int a)) (Fin (15 * of_int b)) = Fin (15 * of_int a)"
      using le(1) by (simp add: 2 clamp_def Math_max_def Math_min_def)
    with ab show ?thesis by blast
  next
    case 3
    have "min (max r (15 * real_of_int a)) (15 * real_of_int b) = 15 * real_of_int b"
      using le 3(2) by simp
    then have "clamp v (Fin (15 * of_int a)) (Fin (15 * of_int b)) = Fin (15 * of_int b)"
      by (simp only: 3(1) clamp_Fin)
    with ab show ?thesis by blast
  next
    case 4
    have "min (max r (15 * real_of_int a)) (15 * real_of_int b) = 15 * real_of_int a"
      using le 4(2) by simp
    then have "clamp v (Fin (15 * of_int a)) (Fin (15 * of_int b)) = Fin (15 * of_int a)"
      by (simp only: 4(1) clamp_Fin)
    with ab show ?thesis by blast
  next
    case 5
    have "clamp v (Fin (15 * of_int a)) (Fin (15 * of_int b))
        = Fin (15 * of_int (min (max m a) b))"
      by (simp only: 5 clamp_Fin min_max_15)
    moreover have "a \<le> min (max m a) b" "min (max m a) b \<le> b"
      using ab by simp_all
    ultimately show ?thesis by blast
  qed
qed

lemma add_d_15:
  assumes "d = PosInf \<or> d = NegInf \<or> (\<exists>k::int. d = Fin (15 * of_int k))"
  shows "add_d (Fin (15 * of_int i)) d = PosInf \<or> add_d (Fin (15 * of_int i)) d = NegInf
    \<or> (\<exists>r. add_d (Fin (15 * of_int i)) d = Fin r \<and> (2 ^ 53 \<le> r \<or> r \<le> - (2 ^ 53)))
    \<or> (\<exists>m::int. add_d (Fin (15 * of_int i)) d = Fin (15 * of_int m))"
proof -
  from assms consider "d = PosInf" | "d = NegInf" | k :: int where "d = Fin (15 * of_int k)"
    by blast
  then show ?thesis
  proof cases
    case 1
    then show ?thesis by (simp add: add_d_def rounded_def)
  next
    case 2
    then show ?thesis by (simp add: add_d_def rounded_def)
  next
    case 3
    define n where "n = 15 * (i + k)"
    have s: "add_d (Fin (15 * of_int i)) d = to_double (of_int n)"
      by (simp add: 3 add_d_def rounded_def n_def algebra_simps)
    consider "\<bar>n\<bar> < 2 ^ 53" | "2 ^ 53 \<le> n" | "n \<le> - (2 ^ 53)"
      by linarith
    then show ?thesis
    proof cases
      case 1
      have "add_d (Fin (15 * of_int i)) d = Fin (15 * of_int (i + k))"
        unfolding s to_double_int [OF 1] by (simp add: n_def)
      then show ?thesis by blast
    next
      case 2
      then have "real_of_int (2 ^ 53) \<le> real_of_int n"
        by (simp only: of_int_le_iff)
      then have "2 ^ 53 \<le> real_of_int n"
        by simp
      from to_double_large_pos [OF this] show ?thesis
        unfolding s by blast
    next
      case 3
      then have "real_of_int n \<le> real_of_int (- (2 ^ 53))"
        by (simp only: of_int_le_iff)
      then have "real_of_int n \<le> - (2 ^ 53)"
        by simp
      from to_double_large_neg [OF this] show ?thesis
        unfolding s by blast
    qed
  qed
qed

lemma resizeShift_ok:
  assumes ok: "shift_ok shift"
    and origin: "originStart rs = Fin (15 * of_int i)" "originEnd rs = Fin (15 * of_int j)"
      "0 \<le> i" "i + 2 \<le> j" "j \<le> 96"
    and d: "d = PosInf \<or> d = NegInf \<or> (\<exists>k::int. d = Fin (15 * of_int k))"
  shows "shift_ok (resizeShift rs d shift)"
proof (cases "id' shift \<noteq> shiftId rs")
  case True
  with ok show ?thesis by (simp add: resizeShift_def)
next
  case False
  have "\<bar>15 * j - 30\<bar> < 2 ^ 53"
    using origin(3-5) by simp
  from sub_d_int [OF this]
  have lo: "sub_d (originEnd rs) MIN_SHIFT_MINUTES = Fin (15 * of_int (j - 2))"
    by (simp add: origin MIN_SHIFT_MINUTES_def)
  have "\<bar>15 * i + 30\<bar> < 2 ^ 53"
    using origin(3-5) by simp
  from add_d_int [OF this]
  have hi: "add_d (originStart rs) MIN_SHIFT_MINUTES = Fin (15 * of_int (i + 2))"
    by (simp add: origin MIN_SHIFT_MINUTES_def)
  have day: "MINUTES_IN_DAY = Fin (15 * of_int 96)" and zero: "Fin 0 = Fin (15 * of_int 0)"
    by (simp_all add: MINUTES_IN_DAY_def)
  show ?thesis
  proof (cases "edge rs = Left")
    case True
    have eq: "resizeShift rs d shift =
        shift\<lparr>start := clamp (add_d (originStart rs) d) (Fin 0)
                          (sub_d (originEnd rs) MIN_SHIFT_MINUTES),
               end' := originEnd rs\<rparr>"
      using False True by (simp add: resizeShift_def)
    from clamp_15 [OF add_d_15 [OF d, of i], of 0 "j - 2"] origin(3-5)
    obtain c :: int where c: "clamp (add_d (Fin (15 * of_int i)) d) (Fin (15 * of_int 0))
        (Fin (15 * of_int (j - 2))) = Fin (15 * of_int c)" "0 \<le> c" "c \<le> j - 2"
      by auto
    have "shift_ok (shift\<lparr>start := Fin (15 * of_int c), end' := Fin (15 * of_int j)\<rparr>)"
      using c(2,3) origin(5) by (intro shift_ok_interval) auto
    then show ?thesis
      unfolding eq lo zero origin(1) c(1) by (simp only: origin(2))
  next
    case right: False
    have eq: "resizeShift rs d shift =
        shift\<lparr>start := originStart rs,
               end' := clamp (add_d (originEnd rs) d)
                         (add_d (originStart rs) MIN_SHIFT_MINUTES) MINUTES_IN_DAY\<rparr>"
      using False right by (simp add: resizeShift_def)
    from clamp_15 [OF add_d_15 [OF d, of j], of "i + 2" 96] origin(3-5)
    obtain c :: int where c: "clamp (add_d (Fin (15 * of_int j)) d) (Fin (15 * of_int (i + 2)))
        (Fin (15 * of_int 96)) = Fin (15 * of_int c)" "i + 2 \<le> c" "c \<le> 96"
      by auto
    have "shift_ok (shift\<lparr>start := Fin (15 * of_int i), end' := Fin (15 * of_int c)\<rparr>)"
      using c(2,3) origin(3) by (intro shift_ok_interval) auto
    then show ?thesis
      unfolding eq hi day origin(2) c(1) by (simp only: origin(1))
  qed
qed

lemma onPointerMove_preserves:
  assumes all: "list_all shift_ok (shifts st)"
    and rs: "resizeState st = Some rs"
    and captured: "shift_ok origin" "originStart rs = start origin" "originEnd rs = end' origin"
    and fin: "originX rs = Fin ox" "pixelsPerHour rs = Fin pph" "pph \<noteq> 0"
  shows "list_all shift_ok (shifts (onPointerMove (Fin x) st))"
proof -
  from captured obtain i j :: int where o: "originStart rs = Fin (15 * of_int i)"
    "originEnd rs = Fin (15 * of_int j)" "0 \<le> i" "i + 2 \<le> j" "j \<le> 96"
    unfolding shift_ok_iff by auto
  define d where
    "d = snapToStep (mul_d (div_d (sub_d (Fin x) (Fin ox)) (Fin pph)) (Fin 60)) SNAP_MINUTES"
  have d: "d = PosInf \<or> d = NegInf \<or> (\<exists>k::int. d = Fin (15 * of_int k))"
    using fin(3) d_def by (rule snapped_delta)
  have "shifts (onPointerMove (Fin x) st) = map (resizeShift rs d) (shifts st)"
    by (simp add: onPointerMove_def rs Let_def fin d_def)
  with all show ?thesis
    by (simp add: list_all_iff resizeShift_ok [OF _ o d])
qed

lemma handleDropOnDateCell_preserves:
  "list_all shift_ok (shifts st) \<Longrightarrow> list_all shift_ok (shifts (handleDropOnDateCell sid e d st))"
  by (auto simp: handleDropOnDateCell_def list_all_iff shift_ok_update)

lemma hourIndex_finite:
  "\<exists>h::int. 0 \<le> h \<and> h \<le> 23 \<and>
     clamp (Math_floor (clamp (Fin x - Fin l) (Fin 0) (Fin w - Fin 1) / HOUR_WIDTH)) (Fin 0)
       (Fin (real (length HOURS)) - Fin 1) * Fin 60 = Fin (15 * of_int (4 * h))"
proof -
  define n where "n = \<lfloor>min (max (x - l) 0) (w - 1) / 72\<rfloor>"
  let ?h = "min (max n 0) 23"
  have hh: "min (max (real_of_int n) 0) 23 = real_of_int ?h"
    by (simp add: min_def max_def)
  have 1: "clamp (Math_floor (clamp (Fin x - Fin l) (Fin 0) (Fin w - Fin 1) / HOUR_WIDTH)) (Fin 0)
       (Fin (real (length HOURS)) - Fin 1) * Fin 60 = Fin (min (max (real_of_int n) 0) 23 * 60)"
    by (simp add: HOUR_WIDTH_def HOURS_def n_def)
  have 2: "min (max (real_of_int n) 0) 23 * 60 = 15 * real_of_int (4 * ?h)"
    unfolding hh by simp
  have "0 \<le> ?h" "?h \<le> 23" by simp_all
  with 1 [unfolded 2] show ?thesis by blast
qed

lemma handleDropOnTimeline_preserves:
  assumes all: "list_all shift_ok (shifts st)"
  shows "list_all shift_ok (shifts (handleDropOnTimeline (Fin x) (Fin l) (Fin w) sid e d st))"
proof (cases "sid = []")
  case True
  with all show ?thesis by (simp add: handleDropOnTimeline_def)
next
  case False
  from hourIndex_finite [of x l w] obtain h :: int where h: "0 \<le> h" "h \<le> 23"
    and cell: "clamp (Math_floor (clamp (Fin x - Fin l) (Fin 0) (Fin w - Fin 1) / HOUR_WIDTH)) (Fin 0)
       (Fin (real (length HOURS)) - Fin 1) * Fin 60 = Fin (15 * of_int (4 * h))"
    by blast
  have moved: "shift_ok (shift\<lparr>employeeId := e, dateKey := d,
        start := clamp (Fin (15 * of_int (4 * h))) (Fin 0) (MINUTES_IN_DAY - (end' shift - start shift)),
        end' := clamp (Fin (15 * of_int (4 * h))) (Fin 0) (MINUTES_IN_DAY - (end' shift - start shift))
                  + (end' shift - start shift)\<rparr>)"
    if ok: "shift_ok shift" for shift
  proof -
    from ok obtain i j :: int where s: "start shift = Fin (15 * of_int i)"
      and e: "end' shift = Fin (15 * of_int j)" and r: "0 \<le> i" "i + 2 \<le> j" "j \<le> 96"
      unfolding shift_ok_iff by auto
    let ?n = "min (max (4 * h) 0) (96 - (j - i))"
    have "min (max (15 * real_of_int (4 * h)) 0) (24 * 60 - (15 * real_of_int j - 15 * real_of_int i))
        = min (max (15 * real_of_int (4 * h)) (15 * real_of_int 0)) (15 * real_of_int (96 - (j - i)))"
      by (simp add: algebra_simps)
    then have c: "clamp (Fin (15 * of_int (4 * h))) (Fin 0) (MINUTES_IN_DAY - (end' shift - start shift))
        = Fin (15 * of_int ?n)"
      by (simp only: s e MINUTES_IN_DAY_def times_number.simps minus_Fin clamp_Fin min_max_15)
    have en: "Fin (15 * of_int ?n) + (end' shift - start shift) = Fin (15 * of_int (?n + (j - i)))"
      by (simp add: s e algebra_simps)
    have "shift_ok (shift\<lparr>start := Fin (15 * of_int ?n), end' := Fin (15 * of_int (?n + (j - i)))\<rparr>)"
      using r h by (intro shift_ok_interval) auto
    then show ?thesis
      by (simp only: c en shift_ok_update)
  qed
  have run: "shifts (handleDropOnTimeline (Fin x) (Fin l) (Fin w) sid e d st) =
      map (\<lambda>shift. if id' shift \<noteq> sid then shift
        else shift\<lparr>employeeId := e, dateKey := d,
          start := clamp (Fin (15 * of_int (4 * h))) (Fin 0) (MINUTES_IN_DAY - (end' shift - start shift)),
          end' := clamp (Fin (15 * of_int (4 * h))) (Fin 0) (MINUTES_IN_DAY - (end' shift - start shift))
                    + (end' shift - start shift)\<rparr>) (shifts st)"
    using False unfolding handleDropOnTimeline_def Let_def cell by simp
  have each: "shift_ok (if id' shift \<noteq> sid then shift
        else shift\<lparr>employeeId := e, dateKey := d,
          start := clamp (Fin (15 * of_int (4 * h))) (Fin 0) (MINUTES_IN_DAY - (end' shift - start shift)),
          end' := clamp (Fin (15 * of_int (4 * h))) (Fin 0) (MINUTES_IN_DAY - (end' shift - start shift))
                    + (end' shift - start shift)\<rparr>)"
    if "shift \<in> set (shifts st)" for shift
  proof (cases "id' shift \<noteq> sid")
    case True
    with that all show ?thesis by (simp add: list_all_iff)
  next
    case False
    from that all have "shift_ok shift" by (simp add: list_all_iff)
    from moved [OF this] False show ?thesis by (simp only: if_False)
  qed
  show ?thesis
    unfolding run list_all_iff set_map ball_simps(9) by (rule ballI) (rule each)
qed

section \<open>Saving the modal draft\<close>

lemma split_date: "String_split ''2024-01-15'' CHR ''-'' = [''2024'', ''01'', ''15'']"
  by simp

lemma numbers_date: "map Number [''2024'', ''01'', ''15''] = [Fin 2024, Fin 1, Fin 15]"
  by (simp add: Number_def trim_def isWhiteSpace_def unsignedDecimalLiteral_def
      isDigit_def digitValue_def exponentPart_def)

lemma civil_example: "civil_from_days 19737 = (2024, 1, 15)"
  unfolding civil_from_days_def Let_def by simp

lemma new_Date_example: "new_Date (Fin 2024) (Fin 0) (Fin 15) = Day 19737"
  by (simp add: new_Date_def MakeFullYear_def trunc_def days_from_civil_def Let_def)

lemma parseDateKey_example: "parseDateKey ''2024-01-15'' = Some (Day 19737)"
  unfolding parseDateKey_def split_date numbers_date
  by (simp add: destructure_def Number_isNaN_def ToNumber_def new_Date_example
      getFullYear_def getMonth_def getDate_def civil_example strict_eq_def)

lemma parseTime_empty: "parseTime [] = Some NaN"
  by (simp add: parseTime_def Number_def trim_def destructure_def Number_isNaN_def ToNumber_def)

lemma parseTime_ten: "parseTime ''10:00'' = Some (Fin 600)"
  by (simp add: parseTime_def Number_def trim_def isWhiteSpace_def unsignedDecimalLiteral_def
      isDigit_def digitValue_def exponentPart_def destructure_def Number_isNaN_def ToNumber_def)

lemma snap_examples:
  "snapToStep NaN SNAP_MINUTES = NaN" "snapToStep (Fin 600) SNAP_MINUTES = Fin 600"
  by (simp_all add: snapToStep_def SNAP_MINUTES_def)

text \<open>
  What \<open>parseTime\<close> returns: \<open>null\<close>, a finite number of minutes from 0 to 1439, or \<open>NaN\<close>;
  and \<open>NaN\<close> exactly for a string without a colon whose number is an hour from 0 to 23.
  Whenever one of the four checks of the submit fails, the state changes in its error message
  only. When neither time parses to \<open>NaN\<close>, the submit keeps the invariants of the
  collection.
\<close>

lemma String_split_nonempty: "String_split v sep \<noteq> []"
  by (induction v) (auto split: list.splits)

lemma parseTime_range:
  assumes "parseTime v = Some r"
  shows "r = NaN \<or> (\<exists>x. r = Fin x \<and> 0 \<le> x \<and> x \<le> 1439)"
proof -
  obtain p ps where sp: "String_split v CHR '':'' = p # ps"
    using String_split_nonempty [of v "CHR '':''"] by (cases "String_split v CHR '':''") auto
  show ?thesis
  proof (cases ps)
    case Nil
    with assms sp show ?thesis
      by (cases "Number p")
        (auto simp: parseTime_def destructure_def Number_isNaN_def ToNumber_def split: if_splits)
  next
    case (Cons q qs)
    with assms sp show ?thesis
      by (cases "Number p"; cases "Number q")
        (auto simp: parseTime_def destructure_def Number_isNaN_def ToNumber_def split: if_splits)
  qed
qed

lemma String_split_single: "String_split v sep = [p] \<Longrightarrow> sep \<notin> set v \<and> p = v"
proof (induction v arbitrary: p)
  case Nil
  then show ?case by simp
next
  case (Cons c cs)
  show ?case
  proof (cases "c = sep")
    case True
    with Cons.prems String_split_nonempty [of cs sep] show ?thesis by simp
  next
    case False
    with Cons.prems String_split_nonempty [of cs sep]
    obtain q where q: "String_split cs sep = [q]" and p: "p = c # q"
      by (cases "String_split cs sep") (auto split: list.splits)
    from Cons.IH [OF q] False p show ?thesis by simp
  qed
qed

lemma parseTime_NaN_iff:
  "(parseTime v = Some NaN) =
     (CHR '':'' \<notin> set v \<and> (\<exists>h. Number v = Fin h \<and> 0 \<le> h \<and> h \<le> 23))"
proof
  assume nan: "parseTime v = Some NaN"
  obtain p ps where sp: "String_split v CHR '':'' = p # ps"
    using String_split_nonempty [of v "CHR '':''"] by (cases "String_split v CHR '':''") auto
  have "ps = []"
  proof (cases ps)
    case (Cons q qs)
    with nan sp show ?thesis
      by (cases "Number p"; cases "Number q")
        (auto simp: parseTime_def destructure_def Number_isNaN_def ToNumber_def split: if_splits)
  qed simp
  with sp String_split_single [of v "CHR '':''" p] have v: "CHR '':'' \<notin> set v" "p = v"
    by simp_all
  from nan sp \<open>ps = []\<close> v(2) have "\<exists>h. Number v = Fin h \<and> 0 \<le> h \<and> h \<le> 23"
    by (cases "Number v")
      (auto simp: parseTime_def destructure_def Number_isNaN_def ToNumber_def split: if_splits)
  with v(1) show "CHR '':'' \<notin> set v \<and> (\<exists>h. Number v = Fin h \<and> 0 \<le> h \<and> h \<le> 23)" ..
next
  assume "CHR '':'' \<notin> set v \<and> (\<exists>h. Number v = Fin h \<and> 0 \<le> h \<and> h \<le> 23)"
  then obtain h where "String_split v CHR '':'' = [v]" "Number v = Fin h" "0 \<le> h" "h \<le> 23"
    by (auto simp: split_no_sep)
  then show "parseTime v = Some NaN"
    by (simp add: parseTime_def destructure_def Number_isNaN_def ToNumber_def)
qed

lemma snapped_range:
  assumes "0 \<le> x" "x \<le> 1439"
  shows "\<exists>i::int. snapToStep (Fin x) SNAP_MINUTES = Fin (15 * of_int i) \<and> 0 \<le> i \<and> i \<le> 96"
proof -
  let ?i = "\<lfloor>x / 15 + 1 / 2\<rfloor>"
  have "0 \<le> ?i"
    using assms by simp
  moreover have "x / 15 + 1 / 2 < 97"
    using assms by simp
  then have "?i < 97"
    by (simp add: floor_less_iff)
  ultimately show ?thesis
    by (auto simp: snapToStep_15)
qed

lemma handleSaveShift_failure:
  assumes "modalDraft st = Some d"
    and "parseDateKey (draft_dateKey d) = None
      \<or> parseTime (draft_startTime d) = None \<or> parseTime (draft_endTime d) = None
      \<or> (\<exists>a b. parseTime (draft_startTime d) = Some a \<and> parseTime (draft_endTime d) = Some b
            \<and> (snapToStep b SNAP_MINUTES \<le> snapToStep a SNAP_MINUTES
               \<or> snapToStep b SNAP_MINUTES - snapToStep a SNAP_MINUTES < MIN_SHIFT_MINUTES))"
  shows "\<exists>m. handleSaveShift uuid t st = st\<lparr>error := Some m\<rparr>"
  using assms by (auto simp: handleSaveShift_def Let_def split: option.splits)

lemma handleSaveShift_preserves:
  assumes all: "list_all shift_ok (shifts st)"
    and fin: "\<forall>d. modalDraft st = Some d \<longrightarrow>
      parseTime (draft_startTime d) \<noteq> Some NaN \<and> parseTime (draft_endTime d) \<noteq> Some NaN"
  shows "list_all shift_ok (shifts (handleSaveShift uuid t st))"
proof (cases "modalDraft st")
  case None
  with all show ?thesis by (simp add: handleSaveShift_def)
next
  case (Some d)
  show ?thesis
  proof (cases "\<exists>m. handleSaveShift uuid t st = st\<lparr>error := Some m\<rparr>")
    case True
    then obtain m where "handleSaveShift uuid t st = st\<lparr>error := Some m\<rparr>" ..
    with all show ?thesis by simp
  next
    case False
    with handleSaveShift_failure [OF Some, of uuid t]
    have nf: "\<not> (parseDateKey (draft_dateKey d) = None
      \<or> parseTime (draft_startTime d) = None \<or> parseTime (draft_endTime d) = None
      \<or> (\<exists>a b. parseTime (draft_startTime d) = Some a \<and> parseTime (draft_endTime d) = Some b
            \<and> (snapToStep b SNAP_MINUTES \<le> snapToStep a SNAP_MINUTES
               \<or> snapToStep b SNAP_MINUTES - snapToStep a SNAP_MINUTES < MIN_SHIFT_MINUTES)))"
      by blast
    then have date: "parseDateKey (draft_dateKey d) \<noteq> None"
      and "parseTime (draft_startTime d) \<noteq> None" and "parseTime (draft_endTime d) \<noteq> None"
      by simp_all
    then obtain a b where pa: "parseTime (draft_startTime d) = Some a"
      and pb: "parseTime (draft_endTime d) = Some b"
      by auto
    from nf pa pb have g1: "\<not> snapToStep b SNAP_MINUTES \<le> snapToStep a SNAP_MINUTES"
      and g2: "\<not> snapToStep b SNAP_MINUTES - snapToStep a SNAP_MINUTES < MIN_SHIFT_MINUTES"
      by simp_all
    from fin Some pa pb have "a \<noteq> NaN" "b \<noteq> NaN" by auto
    with parseTime_range [OF pa] parseTime_range [OF pb]
    obtain x y where xy: "a = Fin x" "0 \<le> x" "x \<le> 1439" "b = Fin y" "0 \<le> y" "y \<le> 1439"
      by auto
    from snapped_range [OF xy(2,3)] snapped_range [OF xy(5,6)]
    obtain i j :: int where i: "snapToStep a SNAP_MINUTES = Fin (15 * of_int i)" "0 \<le> i" "i \<le> 96"
      and j: "snapToStep b SNAP_MINUTES = Fin (15 * of_int j)" "0 \<le> j" "j \<le> 96"
      unfolding xy by blast
    from g2 have "\<not> 15 * real_of_int j - 15 * real_of_int i < 30"
      by (simp add: i j MIN_SHIFT_MINUTES_def)
    then have ij: "i + 2 \<le> j" by linarith
    have new: "shift_ok (s\<lparr>start := snapToStep a SNAP_MINUTES, end' := snapToStep b SNAP_MINUTES\<rparr>)"
      for s
      unfolding i j using i(2) ij j(3) by (rule shift_ok_interval)
    have new': "shift_ok \<lparr>id' = uuid, employeeId = draft_employeeId d, dateKey = draft_dateKey d,
        title = draftTitle t d, start = snapToStep a SNAP_MINUTES, end' = snapToStep b SNAP_MINUTES\<rparr>"
      using new [of "\<lparr>id' = uuid, employeeId = draft_employeeId d, dateKey = draft_dateKey d,
        title = draftTitle t d, start = NaN, end' = NaN\<rparr>"] by simp
    show ?thesis
      using all date g1 g2 new new'
      by (auto simp: handleSaveShift_def Some pa pb Let_def closeModal_def list_all_iff
          shift_ok_update)
  qed
qed

lemma handleSaveShift_create:
  assumes "modalDraft st = Some d" "draft_mode d = Create"
    and "parseDateKey (draft_dateKey d) \<noteq> None"
    and "parseTime (draft_startTime d) = Some a" "parseTime (draft_endTime d) = Some b"
    and "\<not> snapToStep b SNAP_MINUTES \<le> snapToStep a SNAP_MINUTES"
    and "\<not> snapToStep b SNAP_MINUTES - snapToStep a SNAP_MINUTES < MIN_SHIFT_MINUTES"
  shows "handleSaveShift uuid t st =
     st\<lparr>shifts := shifts st @ [\<lparr>id' = uuid, employeeId = draft_employeeId d,
            dateKey = draft_dateKey d, title = draftTitle t d,
            start = snapToStep a SNAP_MINUTES, end' = snapToStep b SNAP_MINUTES\<rparr>],
        modalDraft := None, error := None\<rparr>"
  using assms by (auto simp: handleSaveShift_def Let_def closeModal_def)

text \<open>
  C8 does not hold of the code. A time field left empty does not parse as HH:MM, yet
  \<open>parseTime("")\<close> is not \<open>null\<close>: the split has one component, the minute is
  \<open>undefined\<close>, which \<open>Number.isNaN\<close> and the range checks let pass, and the result is
  \<open>0 * 60 + undefined = NaN\<close>. Both comparisons of the snapped values are false on \<open>NaN\<close>,
  so the submit sets no error, closes the draft and appends a shift whose start is \<open>NaN\<close>.
\<close>

theorem handleSaveShift_blank_start_appends_NaN:
  "handleSaveShift ''u1'' ''Shift'' ((idle [shift_A])\<lparr>modalDraft := Some blank_start_draft\<rparr>)
     = idle [shift_A, \<lparr>id' = ''u1'', employeeId = ''e1'', dateKey = ''2024-01-15'',
         title = ''Night'', start = NaN, end' = Fin 600\<rparr>]"
proof -
  have d: "draft_dateKey blank_start_draft = ''2024-01-15''"
    "draft_startTime blank_start_draft = []" "draft_endTime blank_start_draft = ''10:00''"
    "draft_mode blank_start_draft = Create" "draft_employeeId blank_start_draft = ''e1''"
    "draft_title blank_start_draft = ''Night''"
    by (simp_all add: blank_start_draft_def)
  have t: "trim ''Night'' = ''Night''"
    by (simp add: trim_def isWhiteSpace_def)
  show ?thesis
    by (simp add: handleSaveShift_def idle_def d parseDateKey_example parseTime_empty
        parseTime_ten snap_examples less_eq_number_def minus_number_def MIN_SHIFT_MINUTES_def
        closeModal_def draftTitle_def t)
qed

text \<open>
  C3 does not hold of the code, by the same defect on the edit path: a collection that
  satisfies the invariants, edited with the end field left empty, holds a shift whose end
  is \<open>NaN\<close>.
\<close>

theorem handleSaveShift_blank_end_breaks_invariant:
  "list_all shift_ok [shift_A, shift_B]
   \<and> shifts (handleSaveShift ''u1'' ''Shift'' ((idle [shift_A, shift_B])\<lparr>modalDraft := Some blank_end_draft\<rparr>))
       = [shift_A\<lparr>end' := NaN\<rparr>, shift_B]
   \<and> \<not> shift_ok (shift_A\<lparr>end' := NaN\<rparr>)"
proof -
  have d: "draft_dateKey blank_end_draft = ''2024-01-15''"
    "draft_startTime blank_end_draft = ''10:00''" "draft_endTime blank_end_draft = []"
    "draft_mode blank_end_draft = Edit" "draft_employeeId blank_end_draft = ''e1''"
    "draft_title blank_end_draft = ''A''" "draft_shiftId blank_end_draft = Some ''A''"
    by (simp_all add: blank_end_draft_def)
  have t: "trim ''A'' = ''A''"
    by (simp add: trim_def isWhiteSpace_def)
  have ok: "list_all shift_ok [shift_A, shift_B]"
    by (simp add: shift_ok_def shift_A_def shift_B_def MINUTES_IN_DAY_def MIN_SHIFT_MINUTES_def
        SNAP_MINUTES_def trunc_def)
  have run: "shifts (handleSaveShift ''u1'' ''Shift'' ((idle [shift_A, shift_B])\<lparr>modalDraft := Some blank_end_draft\<rparr>))
       = [shift_A\<lparr>end' := NaN\<rparr>, shift_B]"
    by (simp add: handleSaveShift_def idle_def d parseDateKey_example parseTime_empty
        parseTime_ten snap_examples less_eq_number_def minus_number_def MIN_SHIFT_MINUTES_def
        closeModal_def draftTitle_def t shift_A_def shift_B_def)
  have bad: "\<not> shift_ok (shift_A\<lparr>end' := NaN\<rparr>)"
    by (simp add: shift_ok_def)
  from ok run bad show ?thesis
    by (intro conjI)
qed

section \<open>Loading and saving the shifts\<close>

lemma saveEffect_fields [simp]:
  "c_shifts (saveEffect c) = c_shifts c" "isStorageReady (saveEffect c) = isStorageReady c"
  "isCancelled (saveEffect c) = isCancelled c" "loadPending (saveEffect c) = loadPending c"
  by (simp_all add: saveEffect_def)

lemma saveEffect_trace:
  "trace (saveEffect c) = (if isStorageReady c then trace c @ [SaveCall (c_shifts c)] else trace c)"
  by (simp add: saveEffect_def)

lemma run_Nil: "run [] c = c"
  by (simp add: run_def)

lemma run_Cons: "run (e # es) c = run es (step e c)"
  by (simp add: run_def)

lemma run_append: "run (xs @ ys) c = run ys (run xs c)"
  by (simp add: run_def)

lemma storage_inv_mount: "storage_inv (mount init)"
  by (simp add: storage_inv_def mount_def saveEffect_trace)

lemma storage_inv_settle:
  assumes "loadPending c" "trace c = [LoadCall]" "\<not> isStorageReady c" "\<not> isCancelled c"
  shows "storage_inv (saveEffect (c\<lparr>loadPending := False, c_shifts := ss, isStorageReady := True,
      trace := [LoadCall, LoadSettled, SetReady]\<rparr>))"
proof -
  have "\<exists>saves. [SaveCall ss] = map SaveCall saves"
    by (rule exI [of _ "[ss]"]) simp
  then show ?thesis
    by (simp add: storage_inv_def saveEffect_trace)
qed

lemma storage_inv_step:
  assumes "storage_inv c"
  shows "storage_inv (step e c)"
proof (cases e)
  case (LoadResolved stored)
  show ?thesis
  proof (cases "loadPending c")
    case False
    with assms LoadResolved show ?thesis by simp
  next
    case True
    with assms have tr: "trace c = [LoadCall]" and nr: "\<not> isStorageReady c"
      by (simp_all add: storage_inv_def)
    show ?thesis
    proof (cases "isCancelled c")
      case True
      with \<open>loadPending c\<close> tr nr LoadResolved show ?thesis
        by (simp add: storage_inv_def Let_def)
    next
      case False
      have eq: "step e c = saveEffect (c\<lparr>loadPending := False,
          c_shifts := (case stored of Some ss \<Rightarrow> ss | None \<Rightarrow> c_shifts c), isStorageReady := True,
          trace := [LoadCall, LoadSettled, SetReady]\<rparr>)"
        using \<open>loadPending c\<close> False tr LoadResolved by (cases stored) (simp_all add: Let_def)
      show ?thesis
        unfolding eq using \<open>loadPending c\<close> tr nr False by (rule storage_inv_settle)
    qed
  qed
next
  case LoadRejected
  show ?thesis
  proof (cases "loadPending c")
    case False
    with assms LoadRejected show ?thesis by simp
  next
    case True
    with assms have tr: "trace c = [LoadCall]" and nr: "\<not> isStorageReady c"
      by (simp_all add: storage_inv_def)
    show ?thesis
    proof (cases "isCancelled c")
      case True
      with \<open>loadPending c\<close> tr nr LoadRejected show ?thesis
        by (simp add: storage_inv_def Let_def)
    next
      case False
      have eq: "step e c = saveEffect (c\<lparr>loadPending := False, c_shifts := c_shifts c,
          isStorageReady := True, trace := [LoadCall, LoadSettled, SetReady]\<rparr>)"
        using \<open>loadPending c\<close> False tr LoadRejected by (simp add: Let_def)
      show ?thesis
        unfolding eq using \<open>loadPending c\<close> tr nr False by (rule storage_inv_settle)
    qed
  qed
next
  case (ShiftsChanged ss)
  show ?thesis
  proof (cases "isStorageReady c \<and> \<not> isCancelled c \<and> \<not> loadPending c")
    case False
    with assms ShiftsChanged show ?thesis
      by (auto simp: storage_inv_def saveEffect_trace split: if_splits)
  next
    case True
    with assms obtain saves where
      tr: "trace c = LoadCall # LoadSettled # SetReady # map SaveCall saves"
      by (auto simp: storage_inv_def)
    have "\<exists>saves'. map SaveCall saves @ [SaveCall ss] = map SaveCall saves'"
      by (rule exI [of _ "saves @ [ss]"]) simp
    with True tr ShiftsChanged show ?thesis
      by (simp add: storage_inv_def saveEffect_trace)
  qed
next
  case Unmounted
  with assms show ?thesis
    by (auto simp: storage_inv_def)
qed

lemma storage_inv_run: "storage_inv c \<Longrightarrow> storage_inv (run es c)"
  by (induction es arbitrary: c) (simp_all add: run_Nil run_Cons storage_inv_step)

lemma pending_run:
  assumes "loadPending c" "\<not> isStorageReady c" "\<forall>e \<in> set es. \<not> settles e"
  shows "loadPending (run es c) \<and> \<not> isStorageReady (run es c)"
  using assms
proof (induction es arbitrary: c)
  case Nil
  then show ?case by (simp add: run_Nil)
next
  case (Cons e es)
  have "loadPending (step e c) \<and> \<not> isStorageReady (step e c)"
    using Cons.prems by (cases e) simp_all
  with Cons.IH [of "step e c"] Cons.prems(3) show ?case
    by (simp add: run_Cons)
qed

lemma mounted_run:
  assumes "\<not> isCancelled c" "Unmounted \<notin> set es"
  shows "\<not> isCancelled (run es c)"
  using assms
proof (induction es arbitrary: c)
  case Nil
  then show ?case by (simp add: run_Nil)
next
  case (Cons e es)
  have "\<not> isCancelled (step e c)"
    using Cons.prems by (cases e) (auto simp: Let_def split: option.splits)
  with Cons.IH [of "step e c"] Cons.prems(2) show ?case
    by (simp add: run_Cons)
qed

lemma settle_sets_flag:
  assumes "loadPending c" "\<not> isCancelled c" "settles e"
  shows "isStorageReady (step e c)"
proof (cases e)
  case (LoadResolved stored)
  with assms show ?thesis by (cases stored) (simp_all add: Let_def)
next
  case LoadRejected
  with assms show ?thesis by (simp add: Let_def)
next
  case (ShiftsChanged ss)
  with assms show ?thesis by simp
next
  case Unmounted
  with assms show ?thesis by simp
qed

lemma flag_stays_step: "isStorageReady c \<Longrightarrow> isStorageReady (step e c)"
proof (cases e)
  case (LoadResolved stored)
  assume "isStorageReady c"
  with LoadResolved show ?thesis by (cases stored) (simp_all add: Let_def)
next
  case LoadRejected
  assume "isStorageReady c"
  with LoadRejected show ?thesis by (simp add: Let_def)
next
  case (ShiftsChanged ss)
  assume "isStorageReady c"
  with ShiftsChanged show ?thesis by simp
next
  case Unmounted
  assume "isStorageReady c"
  with Unmounted show ?thesis by simp
qed

lemma flag_stays_run: "isStorageReady c \<Longrightarrow> isStorageReady (run es c)"
  by (induction es arbitrary: c) (simp_all add: run_Nil run_Cons flag_stays_step)

lemma count_SetReady_saves [simp]: "count_list (map SaveCall saves) SetReady = 0"
  by (induction saves) simp_all

lemma LoadSettled_saves [simp]: "LoadSettled \<notin> set (map SaveCall saves)"
  by auto

text \<open>
  C2: in every execution (every sequence of load settling, shift changes and unmounting
  after the mount), the flag \<open>isStorageReady\<close> starts false; every call of
  \<open>saveShiftsToIndexedDb\<close> in the trace comes after the settling of the initial load, and so
  does the setting of the flag; the flag is set at most once, and it is up exactly when it
  has been set once; and once the load has settled, by resolving or by rejecting, in a
  component that is still mounted, the flag is up. The settling raises the flag: when the
  load resolves or rejects for the first time in a component not unmounted before, the flag
  is down before that event, up right after it and in the end, and it has been set exactly
  once; as long as the load has not settled the flag is down and has never been set. Every
  call of \<open>saveShiftsToIndexedDb\<close> comes after the setting of the flag: the trace is the load
  call alone, or the load call and its settling (in a component unmounted before), or the
  load call, its settling, the setting of the flag and then saves only.
\<close>

theorem save_gated_on_storage_ready:
  fixes es :: "Event list" and init :: "Shift list"
  defines "c \<equiv> run es (mount init)"
  shows "\<not> isStorageReady (mount init)
    \<and> (\<forall>i < length (trace c). (\<exists>ss. trace c ! i = SaveCall ss) \<longrightarrow>
          (\<exists>j < i. trace c ! j = LoadSettled))
    \<and> (\<forall>i < length (trace c). trace c ! i = SetReady \<longrightarrow> (\<exists>j < i. trace c ! j = LoadSettled))
    \<and> count_list (trace c) SetReady \<le> 1
    \<and> (isStorageReady c \<longleftrightarrow> count_list (trace c) SetReady = 1)
    \<and> (\<not> loadPending c \<and> \<not> isCancelled c \<longrightarrow> isStorageReady c)
    \<and> (\<forall>pre e post. es = pre @ e # post \<and> settles e
          \<and> (\<forall>e' \<in> set pre. \<not> settles e' \<and> e' \<noteq> Unmounted) \<longrightarrow>
          \<not> isStorageReady (run pre (mount init))
          \<and> isStorageReady (run (pre @ [e]) (mount init))
          \<and> isStorageReady c \<and> count_list (trace c) SetReady = 1)
    \<and> ((\<forall>e \<in> set es. \<not> settles e) \<longrightarrow>
          \<not> isStorageReady c \<and> count_list (trace c) SetReady = 0)
    \<and> (trace c = [LoadCall] \<or> trace c = [LoadCall, LoadSettled]
        \<or> (\<exists>saves. trace c = LoadCall # LoadSettled # SetReady # map SaveCall saves))"
proof -
  have inv: "storage_inv c"
    unfolding c_def by (rule storage_inv_run [OF storage_inv_mount])
  have start: "\<not> isStorageReady (mount init)" "loadPending (mount init)"
    "\<not> isCancelled (mount init)"
    by (simp_all add: mount_def)
  have shape: "trace c = [LoadCall] \<or> trace c = [LoadCall, LoadSettled]
      \<or> (\<exists>saves. trace c = LoadCall # LoadSettled # SetReady # map SaveCall saves)"
    using inv by (auto simp: storage_inv_def split: if_splits)
  have after: "\<exists>j < i. trace c ! j = LoadSettled"
    if i: "i < length (trace c)" and a: "trace c ! i = SetReady \<or> (\<exists>ss. trace c ! i = SaveCall ss)"
    for i
  proof -
    from shape i a obtain rest where tr: "trace c = LoadCall # LoadSettled # rest"
      by auto
    with a have "i \<noteq> 0" "i \<noteq> 1" by (auto simp: nth_Cons' split: if_splits)
    then have "1 < i" by simp
    moreover have "trace c ! 1 = LoadSettled" by (simp add: tr)
    ultimately show ?thesis by blast
  qed
  have cnt: "count_list (trace c) SetReady = (if isStorageReady c then 1 else 0)"
    using inv by (auto simp: storage_inv_def split: if_splits)
  have fin: "\<not> loadPending c \<and> \<not> isCancelled c \<longrightarrow> isStorageReady c"
    using inv by (auto simp: storage_inv_def split: if_splits)
  have settle: "\<not> isStorageReady (run pre (mount init))
      \<and> isStorageReady (run (pre @ [e]) (mount init))
      \<and> isStorageReady c \<and> count_list (trace c) SetReady = 1"
    if es: "es = pre @ e # post" and e: "settles e"
      and pre: "\<forall>e' \<in> set pre. \<not> settles e' \<and> e' \<noteq> Unmounted"
    for pre e post
  proof -
    let ?p = "run pre (mount init)"
    from pre have "\<forall>e' \<in> set pre. \<not> settles e'" and "Unmounted \<notin> set pre"
      by auto
    with start have p: "loadPending ?p" "\<not> isStorageReady ?p" "\<not> isCancelled ?p"
      using pending_run [of "mount init" pre] mounted_run [of "mount init" pre] by simp_all
    have up: "isStorageReady (run (pre @ [e]) (mount init))"
      using settle_sets_flag [OF p(1,3) e] by (simp add: run_append run_Cons run_Nil)
    have "c = run post (run (pre @ [e]) (mount init))"
      unfolding c_def es by (simp add: run_append run_Cons run_Nil)
    with up have "isStorageReady c"
      by (simp add: flag_stays_run)
    with p(2) up cnt show ?thesis
      by simp
  qed
  have before: "\<not> isStorageReady c \<and> count_list (trace c) SetReady = 0"
    if "\<forall>e \<in> set es. \<not> settles e"
  proof -
    from pending_run [OF start(2,1) that] have "\<not> isStorageReady c"
      by (simp add: c_def)
    with cnt show ?thesis
      by simp
  qed
  have c2: "\<forall>i < length (trace c). (\<exists>ss. trace c ! i = SaveCall ss) \<longrightarrow>
      (\<exists>j < i. trace c ! j = LoadSettled)"
    using after by blast
  have c3: "\<forall>i < length (trace c). trace c ! i = SetReady \<longrightarrow> (\<exists>j < i. trace c ! j = LoadSettled)"
    using after by blast
  have c4: "count_list (trace c) SetReady \<le> 1"
    by (simp add: cnt)
  have c5: "isStorageReady c \<longleftrightarrow> count_list (trace c) SetReady = 1"
    by (simp add: cnt)
  have c7: "\<forall>pre e post. es = pre @ e # post \<and> settles e
      \<and> (\<forall>e' \<in> set pre. \<not> settles e' \<and> e' \<noteq> Unmounted) \<longrightarrow>
      \<not> isStorageReady (run pre (mount init))
      \<and> isStorageReady (run (pre @ [e]) (mount init))
      \<and> isStorageReady c \<and> count_list (trace c) SetReady = 1"
    using settle by blast
  have c8: "(\<forall>e \<in> set es. \<not> settles e) \<longrightarrow>
      \<not> isStorageReady c \<and> count_list (trace c) SetReady = 0"
    using before by blast
  from start(1) c2 c3 c4 c5 fin c7 c8 shape show ?thesis
    by (intro conjI)
qed

theorem save_gated_on_storage_ready_witness:
  "trace (run [ShiftsChanged [shift_A], LoadResolved (Some [shift_B]), ShiftsChanged [shift_A, shift_B]]
       (mount [morning_shift]))
     = [LoadCall, LoadSettled, SetReady, SaveCall [shift_B], SaveCall [shift_A, shift_B]]
   \<and> (\<exists>j < 3. trace (run [ShiftsChanged [shift_A], LoadResolved (Some [shift_B]),
                 ShiftsChanged [shift_A, shift_B]] (mount [morning_shift])) ! j = LoadSettled)
   \<and> trace (run [ShiftsChanged [shift_A], LoadRejected, ShiftsChanged [shift_A, shift_B]]
       (mount [morning_shift]))
     = [LoadCall, LoadSettled, SetReady, SaveCall [shift_A], SaveCall [shift_A, shift_B]]
   \<and> settles LoadRejected
   \<and> \<not> settles (ShiftsChanged [shift_A]) \<and> ShiftsChanged [shift_A] \<noteq> Unmounted
   \<and> \<not> isStorageReady (run [ShiftsChanged [shift_A]] (mount [morning_shift]))
   \<and> isStorageReady (run [ShiftsChanged [shift_A], LoadRejected] (mount [morning_shift]))
   \<and> isStorageReady (run [ShiftsChanged [shift_A], LoadRejected, ShiftsChanged [shift_A, shift_B]]
       (mount [morning_shift]))
   \<and> count_list (trace (run [ShiftsChanged [shift_A], LoadRejected, ShiftsChanged [shift_A, shift_B]]
       (mount [morning_shift]))) SetReady = 1"
proof -
  let ?c = "run [ShiftsChanged [shift_A], LoadResolved (Some [shift_B]), ShiftsChanged [shift_A, shift_B]]
       (mount [morning_shift])"
  let ?es = "[ShiftsChanged [shift_A], LoadRejected, ShiftsChanged [shift_A, shift_B]]"
  have tr: "trace ?c = [LoadCall, LoadSettled, SetReady, SaveCall [shift_B], SaveCall [shift_A, shift_B]]"
    by (simp add: run_Cons run_Nil mount_def saveEffect_def)
  have "3 < length (trace ?c)" and "\<exists>ss. trace ?c ! 3 = SaveCall ss"
    by (simp_all add: tr)
  with save_gated_on_storage_ready [of "[morning_shift]"
      "[ShiftsChanged [shift_A], LoadResolved (Some [shift_B]), ShiftsChanged [shift_A, shift_B]]"]
  have resolved: "\<exists>j < 3. trace ?c ! j = LoadSettled"
    by blast
  have tr': "trace (run ?es (mount [morning_shift]))
      = [LoadCall, LoadSettled, SetReady, SaveCall [shift_A], SaveCall [shift_A, shift_B]]"
    by (simp add: run_Cons run_Nil mount_def saveEffect_def)
  have split: "?es = [ShiftsChanged [shift_A]] @ LoadRejected # [ShiftsChanged [shift_A, shift_B]]"
    by simp
  have e: "settles LoadRejected"
    and pre: "\<not> settles (ShiftsChanged [shift_A])" "ShiftsChanged [shift_A] \<noteq> Unmounted"
    by simp_all
  then have pre': "\<forall>e' \<in> set [ShiftsChanged [shift_A]]. \<not> settles e' \<and> e' \<noteq> Unmounted"
    by simp
  from save_gated_on_storage_ready [of "[morning_shift]" ?es] split e pre'
  have rejected: "\<not> isStorageReady (run [ShiftsChanged [shift_A]] (mount [morning_shift]))
      \<and> isStorageReady (run ([ShiftsChanged [shift_A]] @ [LoadRejected]) (mount [morning_shift]))
      \<and> isStorageReady (run ?es (mount [morning_shift]))
      \<and> count_list (trace (run ?es (mount [morning_shift]))) SetReady = 1"
    by blast
  from tr resolved tr' e pre rejected show ?thesis
    by simp
qed

end
